theory Spec2Isabelle
  imports Main "HOL-Library.Product_Lexorder" "HOL-Library.List_Lexorder" "HOL-Library.Char_ord"
begin

section \<open>Data model\<close>

text \<open>
  The six tables of the dataset, with the columns the sync and merge scripts read and
  write.  Columns that the scripts only copy from one database to the other (records,
  results, deck contents, ratio metrics) are kept as opaque strings; dates are instants
  on an integer time line.  A column declared nullable in the scripts
  (\<open>number | null\<close>) is an \<open>option\<close>.
\<close>

record event =
  ev_id :: int
  ev_name :: string
  ev_date :: int
  ev_format :: string
  ev_kind :: string
  ev_rounds :: "int option"
  ev_players :: "int option"

record player =
  pl_id :: int
  pl_name :: string

text \<open>A player row as read from the upstream database, where the id may be null.\<close>

record upstream_player =
  up_id :: "int option"
  up_name :: string

record standing =
  st_event_id :: int
  st_rank :: int
  st_player :: string
  st_record :: string
  st_points :: int
  st_omwp :: string
  st_gwp :: string
  st_owp :: string

record match =
  mt_id :: int
  mt_event_id :: int
  mt_round :: int
  mt_player :: string
  mt_opponent :: string
  mt_record :: string
  mt_result :: string
  mt_isbye :: bool
  mt_games :: string

record deck =
  dk_id :: int
  dk_event_id :: int
  dk_player :: string
  dk_mainboard :: string
  dk_sideboard :: string

record archetype =
  ar_id :: int
  ar_deck_id :: "int option"
  ar_name :: string
  ar_archetype :: string
  ar_archetype_id :: "int option"

text \<open>
  A database is its six tables, each a list of rows in storage order.  The type of the
  player rows is a parameter: \<open>player db\<close> is the local database (and an imported
  snapshot), \<open>upstream_player db\<close> is the upstream database.
\<close>

record 'p db =
  events :: "event list"
  players :: "'p list"
  standings :: "standing list"
  matches :: "match list"
  decks :: "deck list"
  archetypes :: "archetype list"

section \<open>The database engine\<close>

text \<open>The errors a write statement can raise.\<close>

datatype db_error = UniqueViolation | ForeignKeyViolation | CardinalityViolation

text \<open>
  Modelled from the spec: the relational schema (\<open>schema.sql\<close>, \<open>indexes.sql\<close>) is
  not part of the sources.  The unique keys are the conflict targets the scripts name in
  their \<open>ON CONFLICT\<close> clauses (a conflict target must be backed by a unique index):
  \<open>events(id)\<close>, \<open>players(id)\<close>, \<open>players(name)\<close>,
  \<open>standings(event_id, player)\<close>, \<open>matches(event_id, round, player)\<close>,
  \<open>decks(id)\<close>, \<open>archetypes(id)\<close>.  The references are those of the data model:
  a standing, match or deck belongs to an event and resolves to a player by name, an
  archetype belongs to a deck unless its deck id is null.
\<close>

definition standing_key :: "standing \<Rightarrow> int \<times> string" where
  "standing_key s = (st_event_id s, st_player s)"

definition match_key :: "match \<Rightarrow> int \<times> int \<times> string" where
  "match_key m = (mt_event_id m, mt_round m, mt_player m)"

definition event_ids :: "'p db \<Rightarrow> int set" where
  "event_ids d = ev_id ` set (events d)"

definition player_names :: "player db \<Rightarrow> string set" where
  "player_names d = pl_name ` set (players d)"

definition player_ids :: "player db \<Rightarrow> int set" where
  "player_ids d = pl_id ` set (players d)"

definition deck_ids :: "'p db \<Rightarrow> int set" where
  "deck_ids d = dk_id ` set (decks d)"

definition standing_fk :: "player db \<Rightarrow> standing \<Rightarrow> bool" where
  "standing_fk d s \<longleftrightarrow> st_event_id s \<in> event_ids d \<and> st_player s \<in> player_names d"

definition match_fk :: "player db \<Rightarrow> match \<Rightarrow> bool" where
  "match_fk d m \<longleftrightarrow> mt_event_id m \<in> event_ids d \<and> mt_player m \<in> player_names d"

definition deck_fk :: "player db \<Rightarrow> deck \<Rightarrow> bool" where
  "deck_fk d k \<longleftrightarrow> dk_event_id k \<in> event_ids d \<and> dk_player k \<in> player_names d"

definition archetype_fk :: "player db \<Rightarrow> archetype \<Rightarrow> bool" where
  "archetype_fk d a \<longleftrightarrow> (case ar_deck_id a of None \<Rightarrow> True | Some k \<Rightarrow> k \<in> deck_ids d)"

text \<open>
  \<open>INSERT ... ON CONFLICT (key) DO UPDATE SET ...\<close> of a batch of rows, as one
  statement.  A proposed row whose key is already in the table updates that row in
  place with \<open>excl existing proposed\<close>; another row is appended.  The statement is
  atomic: it raises, and leaves the table as it was, when two proposed rows have the
  same key (the command may not affect a row a second time) or when a proposed row
  breaks a reference.
\<close>

definition put :: "('r \<Rightarrow> 'k) \<Rightarrow> ('r \<Rightarrow> 'r \<Rightarrow> 'r) \<Rightarrow> 'r \<Rightarrow> 'r list \<Rightarrow> 'r list" where
  "put key excl r tbl =
     (if key r \<in> key ` set tbl
      then map (\<lambda>x. if key x = key r then excl x r else x) tbl
      else tbl @ [r])"

definition on_conflict_do_update ::
  "('r \<Rightarrow> 'k) \<Rightarrow> ('r \<Rightarrow> 'r \<Rightarrow> 'r) \<Rightarrow> ('r \<Rightarrow> bool) \<Rightarrow> 'r list \<Rightarrow> 'r list \<Rightarrow> db_error + 'r list" where
  "on_conflict_do_update key excl fk tbl batch =
     (if \<not> distinct (map key batch) then Inl CardinalityViolation
      else if \<not> list_all fk batch then Inl ForeignKeyViolation
      else Inr (fold (put key excl) batch tbl))"

text \<open>
  \<open>INSERT INTO players ... ON CONFLICT (name) DO NOTHING\<close> of a batch: a proposed
  row whose name is already in the table is dropped; a row with a new name and an id
  that is already in the table raises (the id is unique too, and is not the conflict
  target); another row is appended.
\<close>

fun insert_players_on_conflict_name_do_nothing ::
  "player list \<Rightarrow> player list \<Rightarrow> db_error + player list" where
  "insert_players_on_conflict_name_do_nothing tbl [] = Inr tbl"
| "insert_players_on_conflict_name_do_nothing tbl (p # ps) =
     (if pl_name p \<in> pl_name ` set tbl then insert_players_on_conflict_name_do_nothing tbl ps
      else if pl_id p \<in> pl_id ` set tbl then Inl UniqueViolation
      else insert_players_on_conflict_name_do_nothing (tbl @ [p]) ps)"


text \<open>
  \<open>INSERT ... VALUES (one row) ON CONFLICT (key) DO NOTHING\<close>: a row whose key is
  already in the table changes nothing; another row is appended unless it breaks one
  of the table's other constraints, in which case the statement raises.
\<close>

definition insert_on_conflict_do_nothing ::
  "('r \<Rightarrow> 'k) \<Rightarrow> ('r list \<Rightarrow> 'r \<Rightarrow> db_error option) \<Rightarrow> 'r \<Rightarrow> 'r list \<Rightarrow> db_error + 'r list" where
  "insert_on_conflict_do_nothing key violation r tbl =
     (if key r \<in> key ` set tbl then Inr tbl
      else case violation tbl r of Some e \<Rightarrow> Inl e | None \<Rightarrow> Inr (tbl @ [r]))"

definition breaks_reference :: "('r \<Rightarrow> bool) \<Rightarrow> 'r list \<Rightarrow> 'r \<Rightarrow> db_error option" where
  "breaks_reference fk tbl r = (if fk r then None else Some ForeignKeyViolation)"

definition player_name_taken :: "player list \<Rightarrow> player \<Rightarrow> db_error option" where
  "player_name_taken tbl p =
     (if pl_name p \<in> pl_name ` set tbl then Some UniqueViolation else None)"

section \<open>The local connection\<close>

text \<open>
  The local connection is the local database together with a journal of the write
  statements that took effect on it, one entry per statement, naming the table written.
\<close>

datatype stage = Players | Events | Standings | Matches | Decks | Archetypes

record conn =
  data :: "player db"
  journal :: "stage list"

definition commit :: "stage \<Rightarrow> player db \<Rightarrow> conn \<Rightarrow> conn" where
  "commit s d c = \<lparr>data = d, journal = journal c @ [s]\<rparr>"

text \<open>
  A stage returns its row count, or the error that ended it, together with the
  connection as the stage left it.  \<open>then_stage\<close> is the sequencing of two awaited
  calls: an error of the first is thrown past the second.
\<close>

type_synonym 'a staged = "(db_error + 'a) \<times> conn"

definition then_stage :: "'a staged \<Rightarrow> ('a \<Rightarrow> conn \<Rightarrow> 'b staged) \<Rightarrow> 'b staged" where
  "then_stage r f = (case r of (Inl e, c) \<Rightarrow> (Inl e, c) | (Inr a, c) \<Rightarrow> f a c)"

section \<open>The diff engine\<close>

definition getLocalEventIds :: "conn \<Rightarrow> int set" where
  "getLocalEventIds c = set (map ev_id (events (data c)))"

text \<open>The \<open>WHERE\<close> clause of the incomplete-events query; a null player count is not \<open>> 0\<close>.\<close>

definition incomplete :: "'p db \<Rightarrow> event \<Rightarrow> bool" where
  "incomplete d e \<longleftrightarrow>
     (case ev_players e of None \<Rightarrow> False | Some n \<Rightarrow> n > 0) \<and>
     (\<not> (\<exists>s \<in> set (standings d). st_event_id s = ev_id e) \<or>
      \<not> (\<exists>m \<in> set (matches d). mt_event_id m = ev_id e))"

text \<open>
  \<open>SELECT DISTINCT e.id, e.name, e.date ... ORDER BY e.date DESC, e.id DESC LIMIT 100\<close>:
  the rows are (id, name, date) triples.
\<close>

definition incompleteEvents :: "'p db \<Rightarrow> (int \<times> string \<times> int) list" where
  "incompleteEvents d =
     take 100 (sort_key (\<lambda>(i, n, t). (- t, - i))
       (remdups (map (\<lambda>e. (ev_id e, ev_name e, ev_date e)) (filter (incomplete d) (events d)))))"

definition getIncompleteEventIds :: "'p db \<Rightarrow> int list" where
  "getIncompleteEventIds d = map fst (incompleteEvents d)"

definition getUpstreamEvents :: "'p db \<Rightarrow> int set \<Rightarrow> event list" where
  "getUpstreamEvents up excludeIds =
     (if excludeIds = {} then sort_key (\<lambda>e. (- ev_date e, - ev_id e)) (events up)
      else sort_key (\<lambda>e. (- ev_date e, - ev_id e))
             (filter (\<lambda>e. ev_id e \<notin> excludeIds) (events up)))"

section \<open>The identity reconciler\<close>

text \<open>
  The player names referenced by the standings, matches and decks of the given events.
  The \<open>UNION\<close> yields each name once; SQL leaves the order of the rows open, and
  the model takes the order of first occurrence.
\<close>

definition referencedPlayerNames :: "'p db \<Rightarrow> int list \<Rightarrow> string list" where
  "referencedPlayerNames up eventIds =
     remdups
       (map st_player (filter (\<lambda>s. st_event_id s \<in> set eventIds) (standings up)) @
        map mt_player (filter (\<lambda>m. mt_event_id m \<in> set eventIds) (matches up)) @
        map dk_player (filter (\<lambda>k. dk_event_id k \<in> set eventIds) (decks up)))"

definition upstreamPlayers :: "upstream_player db \<Rightarrow> string list \<Rightarrow> upstream_player list" where
  "upstreamPlayers up playerNames = filter (\<lambda>p. up_name p \<in> set playerNames) (players up)"

text \<open>\<open>new Map(rows.map(p => [p.name, p.id]))\<close>: a later row replaces an earlier one.\<close>

definition upstreamPlayerMap :: "upstream_player list \<Rightarrow> (string \<rightharpoonup> int option)" where
  "upstreamPlayerMap ups = fold (\<lambda>p m. m(up_name p \<mapsto> up_id p)) ups Map.empty"

definition localPlayerNameMap :: "player list \<Rightarrow> (string \<rightharpoonup> int)" where
  "localPlayerNameMap lps = fold (\<lambda>p m. m(pl_name p \<mapsto> pl_id p)) lps Map.empty"

definition localPlayerIdSet :: "player list \<Rightarrow> int set" where
  "localPlayerIdSet lps = set (map pl_id lps)"

definition negativeIds :: "player list \<Rightarrow> int list" where
  "negativeIds lps = map pl_id (filter (\<lambda>p. pl_id p < 0) lps)"

definition minNegativeId :: "player list \<Rightarrow> int" where
  "minNegativeId lps = (if negativeIds lps \<noteq> [] then Min (set (negativeIds lps)) else 0)"

text \<open>
  One turn of the loop for a name that is not on the target: the id and the next
  value of \<open>nextNegativeId\<close>.  \<open>??\<close> takes the counter (and decrements it) when the
  map has no entry for the name or a null one.
\<close>

definition pick_id :: "(string \<rightharpoonup> int option) \<Rightarrow> int set \<Rightarrow> int \<Rightarrow> string \<Rightarrow> int \<times> int" where
  "pick_id um ids nextNegativeId playerName =
     (let (i, next1) = (case um playerName of
                          Some (Some u) \<Rightarrow> (u, nextNegativeId)
                        | _ \<Rightarrow> (nextNegativeId, nextNegativeId - 1))
      in if i > 0 \<and> i \<in> ids then (next1, next1 - 1) else (i, next1))"

fun playersToSync_loop ::
  "(string \<rightharpoonup> int option) \<Rightarrow> (string \<rightharpoonup> int) \<Rightarrow> int set \<Rightarrow> int \<Rightarrow> string list \<Rightarrow> player list" where
  "playersToSync_loop um lm ids nextNegativeId [] = []"
| "playersToSync_loop um lm ids nextNegativeId (playerName # rest) =
     (if lm playerName \<noteq> None then playersToSync_loop um lm ids nextNegativeId rest
      else (let (i, next') = pick_id um ids nextNegativeId playerName
            in \<lparr>pl_id = i, pl_name = playerName\<rparr> # playersToSync_loop um lm ids next' rest))"

definition playersToSync :: "upstream_player db \<Rightarrow> player list \<Rightarrow> string list \<Rightarrow> player list" where
  "playersToSync up localPlayers playerNames =
     playersToSync_loop (upstreamPlayerMap (upstreamPlayers up playerNames))
       (localPlayerNameMap localPlayers) (localPlayerIdSet localPlayers)
       (minNegativeId localPlayers - 1) playerNames"

definition insert_players :: "player list \<Rightarrow> conn \<Rightarrow> db_error + conn" where
  "insert_players batch c =
     (case insert_players_on_conflict_name_do_nothing (players (data c)) batch of
        Inl e \<Rightarrow> Inl e
      | Inr t \<Rightarrow> Inr (commit Players ((data c)\<lparr>players := t\<rparr>) c))"

definition syncPlayers :: "upstream_player db \<Rightarrow> int list \<Rightarrow> conn \<Rightarrow> nat staged" where
  "syncPlayers up eventIds c =
     (if eventIds = [] then (Inr 0, c)
      else let playerNames = referencedPlayerNames up eventIds in
        if playerNames = [] then (Inr 0, c)
        else let plan = playersToSync up (players (data c)) playerNames in
          if plan \<noteq> [] then
            (case insert_players plan c of
               Inl e \<Rightarrow> (Inl e, c)
             | Inr c' \<Rightarrow> (Inr (length plan), c'))
          else (Inr (length plan), c))"

section \<open>The write pipeline\<close>

text \<open>The \<open>DO UPDATE SET col = EXCLUDED.col\<close> lists of the five upserts.\<close>

definition event_excluded :: "event \<Rightarrow> event \<Rightarrow> event" where
  "event_excluded x r = x\<lparr>ev_name := ev_name r, ev_date := ev_date r, ev_format := ev_format r,
     ev_kind := ev_kind r, ev_rounds := ev_rounds r, ev_players := ev_players r\<rparr>"

definition standing_excluded :: "standing \<Rightarrow> standing \<Rightarrow> standing" where
  "standing_excluded x r = x\<lparr>st_rank := st_rank r, st_record := st_record r,
     st_points := st_points r, st_omwp := st_omwp r, st_gwp := st_gwp r, st_owp := st_owp r\<rparr>"

definition match_excluded :: "match \<Rightarrow> match \<Rightarrow> match" where
  "match_excluded x r = x\<lparr>mt_id := mt_id r, mt_opponent := mt_opponent r,
     mt_record := mt_record r, mt_result := mt_result r, mt_isbye := mt_isbye r,
     mt_games := mt_games r\<rparr>"

definition deck_excluded :: "deck \<Rightarrow> deck \<Rightarrow> deck" where
  "deck_excluded x r = x\<lparr>dk_event_id := dk_event_id r, dk_player := dk_player r,
     dk_mainboard := dk_mainboard r, dk_sideboard := dk_sideboard r\<rparr>"

definition archetype_excluded :: "archetype \<Rightarrow> archetype \<Rightarrow> archetype" where
  "archetype_excluded x r = x\<lparr>ar_deck_id := ar_deck_id r, ar_name := ar_name r,
     ar_archetype := ar_archetype r, ar_archetype_id := ar_archetype_id r\<rparr>"

text \<open>The five upsert statements, each on its table of the local database.\<close>

definition upsert_events :: "event list \<Rightarrow> conn \<Rightarrow> db_error + conn" where
  "upsert_events batch c =
     (case on_conflict_do_update ev_id event_excluded (\<lambda>r. True) (events (data c)) batch of
        Inl e \<Rightarrow> Inl e
      | Inr t \<Rightarrow> Inr (commit Events ((data c)\<lparr>events := t\<rparr>) c))"

definition upsert_standings :: "standing list \<Rightarrow> conn \<Rightarrow> db_error + conn" where
  "upsert_standings batch c =
     (case on_conflict_do_update standing_key standing_excluded (standing_fk (data c))
             (standings (data c)) batch of
        Inl e \<Rightarrow> Inl e
      | Inr t \<Rightarrow> Inr (commit Standings ((data c)\<lparr>standings := t\<rparr>) c))"

definition upsert_matches :: "match list \<Rightarrow> conn \<Rightarrow> db_error + conn" where
  "upsert_matches batch c =
     (case on_conflict_do_update match_key match_excluded (match_fk (data c))
             (matches (data c)) batch of
        Inl e \<Rightarrow> Inl e
      | Inr t \<Rightarrow> Inr (commit Matches ((data c)\<lparr>matches := t\<rparr>) c))"

definition upsert_decks :: "deck list \<Rightarrow> conn \<Rightarrow> db_error + conn" where
  "upsert_decks batch c =
     (case on_conflict_do_update dk_id deck_excluded (deck_fk (data c)) (decks (data c)) batch of
        Inl e \<Rightarrow> Inl e
      | Inr t \<Rightarrow> Inr (commit Decks ((data c)\<lparr>decks := t\<rparr>) c))"

definition upsert_archetypes :: "archetype list \<Rightarrow> conn \<Rightarrow> db_error + conn" where
  "upsert_archetypes batch c =
     (case on_conflict_do_update ar_id archetype_excluded (archetype_fk (data c))
             (archetypes (data c)) batch of
        Inl e \<Rightarrow> Inl e
      | Inr t \<Rightarrow> Inr (commit Archetypes ((data c)\<lparr>archetypes := t\<rparr>) c))"

text \<open>
  The batching loop \<open>for (i = 0; i < rows.length; i += BATCH_SIZE)\<close>, writing
  \<open>rows.slice(i, i + BATCH_SIZE)\<close> with one statement per turn.  An error of a
  statement ends the loop; the batches written before it stay written.  The batch sizes
  of the scripts are positive constants; the loop is not entered for a batch size of 0.
  The loop is written for any state that the statement works on; in the scripts it is
  the local connection.
\<close>

function batch_loop ::
  "nat \<Rightarrow> ('r list \<Rightarrow> 's \<Rightarrow> db_error + 's) \<Rightarrow> 'r list \<Rightarrow> nat \<Rightarrow> 's \<Rightarrow> db_error option \<times> 's" where
  "batch_loop BATCH_SIZE stmt rows i c =
     (if i < length rows \<and> 0 < BATCH_SIZE then
        (case stmt (take BATCH_SIZE (drop i rows)) c of
           Inl e \<Rightarrow> (Some e, c)
         | Inr c' \<Rightarrow> batch_loop BATCH_SIZE stmt rows (i + BATCH_SIZE) c')
      else (None, c))"
  by pat_completeness auto
termination
  by (relation "measure (\<lambda>(b, stmt, rows, i, c). length rows - i)") auto

declare batch_loop.simps [simp del]

definition batched ::
  "nat \<Rightarrow> ('r list \<Rightarrow> 's \<Rightarrow> db_error + 's) \<Rightarrow> 'r list \<Rightarrow> 's \<Rightarrow> (db_error + nat) \<times> 's" where
  "batched BATCH_SIZE stmt rows c =
     (case batch_loop BATCH_SIZE stmt rows 0 c of
        (Some e, c') \<Rightarrow> (Inl e, c')
      | (None, c') \<Rightarrow> (Inr (length rows), c'))"

text \<open>The batch sizes and column counts of the four batched stages, and the limit on
  the parameters of one statement that the scripts name.\<close>

definition STANDINGS_BATCH_SIZE :: nat where "STANDINGS_BATCH_SIZE = 8000"
definition MATCHES_BATCH_SIZE :: nat where "MATCHES_BATCH_SIZE = 7000"
definition DECKS_BATCH_SIZE :: nat where "DECKS_BATCH_SIZE = 13000"
definition ARCHETYPES_BATCH_SIZE :: nat where "ARCHETYPES_BATCH_SIZE = 13000"

definition STANDING_COLUMNS :: nat where "STANDING_COLUMNS = 8"
definition MATCH_COLUMNS :: nat where "MATCH_COLUMNS = 9"
definition DECK_COLUMNS :: nat where "DECK_COLUMNS = 5"
definition ARCHETYPE_COLUMNS :: nat where "ARCHETYPE_COLUMNS = 5"

definition PARAMETER_LIMIT :: nat where "PARAMETER_LIMIT = 65534"

definition syncEvents :: "event list \<Rightarrow> conn \<Rightarrow> nat staged" where
  "syncEvents evs c =
     (if evs = [] then (Inr 0, c)
      else case upsert_events evs c of
             Inl e \<Rightarrow> (Inl e, c)
           | Inr c' \<Rightarrow> (Inr (length evs), c'))"

definition upstreamStandings :: "'p db \<Rightarrow> int list \<Rightarrow> standing list" where
  "upstreamStandings up eventIds =
     sort_key (\<lambda>s. (st_event_id s, st_rank s))
       (filter (\<lambda>s. st_event_id s \<in> set eventIds) (standings up))"

definition syncStandings :: "'p db \<Rightarrow> int list \<Rightarrow> conn \<Rightarrow> nat staged" where
  "syncStandings up eventIds c =
     (if eventIds = [] then (Inr 0, c)
      else let rows = upstreamStandings up eventIds in
        if rows = [] then (Inr 0, c)
        else batched STANDINGS_BATCH_SIZE upsert_standings rows c)"

definition upstreamMatches :: "'p db \<Rightarrow> int list \<Rightarrow> match list" where
  "upstreamMatches up eventIds =
     sort_key (\<lambda>m. (mt_event_id m, mt_round m, mt_player m))
       (filter (\<lambda>m. mt_event_id m \<in> set eventIds) (matches up))"

definition syncMatches :: "'p db \<Rightarrow> int list \<Rightarrow> conn \<Rightarrow> nat staged" where
  "syncMatches up eventIds c =
     (if eventIds = [] then (Inr 0, c)
      else let rows = upstreamMatches up eventIds in
        if rows = [] then (Inr 0, c)
        else batched MATCHES_BATCH_SIZE upsert_matches rows c)"

definition upstreamDecks :: "'p db \<Rightarrow> int list \<Rightarrow> deck list" where
  "upstreamDecks up eventIds =
     sort_key (\<lambda>k. (dk_event_id k, dk_player k))
       (filter (\<lambda>k. dk_event_id k \<in> set eventIds) (decks up))"

definition syncDecks :: "'p db \<Rightarrow> int list \<Rightarrow> conn \<Rightarrow> nat staged" where
  "syncDecks up eventIds c =
     (if eventIds = [] then (Inr 0, c)
      else let rows = upstreamDecks up eventIds in
        if rows = [] then (Inr 0, c)
        else batched DECKS_BATCH_SIZE upsert_decks rows c)"

definition upstreamDeckIds :: "'p db \<Rightarrow> int list \<Rightarrow> int list" where
  "upstreamDeckIds up eventIds =
     map dk_id (filter (\<lambda>k. dk_event_id k \<in> set eventIds) (decks up))"

definition upstreamArchetypes :: "'p db \<Rightarrow> int list \<Rightarrow> archetype list" where
  "upstreamArchetypes up deckIdArray =
     sort_key ar_id
       (filter (\<lambda>a. case ar_deck_id a of None \<Rightarrow> False | Some k \<Rightarrow> k \<in> set deckIdArray)
          (archetypes up))"

definition syncArchetypes :: "'p db \<Rightarrow> int list \<Rightarrow> conn \<Rightarrow> nat staged" where
  "syncArchetypes up eventIds c =
     (if eventIds = [] then (Inr 0, c)
      else let deckIdArray = upstreamDeckIds up eventIds in
        if deckIdArray = [] then (Inr 0, c)
        else let rows = upstreamArchetypes up deckIdArray in
          if rows = [] then (Inr 0, c)
          else batched ARCHETYPES_BATCH_SIZE upsert_archetypes rows c)"

section \<open>The sync run\<close>

text \<open>The lines of the summary that a completed run prints.\<close>

record summary =
  new_events :: nat
  updated_events :: nat
  total_events :: nat
  sum_players :: nat
  sum_standings :: nat
  sum_matches :: nat
  sum_decks :: nat
  sum_archetypes :: nat

text \<open>A run completes with its summary, or exits with status 1 on the error it caught.\<close>

datatype outcome = Completed summary | Exit1 db_error

definition stages ::
  "upstream_player db \<Rightarrow> event list \<Rightarrow> int list \<Rightarrow> conn \<Rightarrow> summary staged" where
  "stages up newEvents incompleteEventIds c =
     (let allEventIdsToSync = map ev_id newEvents @ incompleteEventIds in
      then_stage (syncPlayers up allEventIdsToSync c) (\<lambda>np c1.
      then_stage (if newEvents \<noteq> [] then syncEvents newEvents c1 else (Inr 0, c1)) (\<lambda>ne c2.
      then_stage (syncStandings up allEventIdsToSync c2) (\<lambda>ns c3.
      then_stage (syncMatches up allEventIdsToSync c3) (\<lambda>nm c4.
      then_stage (syncDecks up allEventIdsToSync c4) (\<lambda>nd c5.
      then_stage (syncArchetypes up allEventIdsToSync c5) (\<lambda>na c6.
        (Inr \<lparr>new_events = length newEvents,
             updated_events = length incompleteEventIds,
             total_events = length allEventIdsToSync,
             sum_players = np, sum_standings = ns, sum_matches = nm,
             sum_decks = nd, sum_archetypes = na\<rparr>, c6))))))))"

definition sync :: "upstream_player db \<Rightarrow> conn \<Rightarrow> outcome \<times> conn" where
  "sync up c =
     (let localEventIds = getLocalEventIds c;
          incompleteEventIds = getIncompleteEventIds (data c);
          newEvents = getUpstreamEvents up localEventIds;
          allEventIdsToSync = map ev_id newEvents @ incompleteEventIds
      in if allEventIdsToSync = [] then
           (Completed \<lparr>new_events = 0, updated_events = 0, total_events = 0,
              sum_players = 0, sum_standings = 0, sum_matches = 0,
              sum_decks = 0, sum_archetypes = 0\<rparr>, c)
         else case stages up newEvents incompleteEventIds c of
                (Inl e, c') \<Rightarrow> (Exit1 e, c')
              | (Inr s, c') \<Rightarrow> (Completed s, c'))"

section \<open>Merging an imported snapshot\<close>

text \<open>
  The merge script reads the rows of the snapshot that the target lacks and inserts them
  one statement per row.  The first loop shape has no handler, an error of a statement
  ends the merge; the second catches the error of a statement, leaves the row out and
  goes on.  Both count the statements that returned.
\<close>

fun insert_each ::
  "('r \<Rightarrow> player db \<Rightarrow> db_error + player db) \<Rightarrow> 'r list \<Rightarrow> nat \<times> player db \<Rightarrow>
   db_error + nat \<times> player db" where
  "insert_each ins [] (n, d) = Inr (n, d)"
| "insert_each ins (r # rs) (n, d) =
     (case ins r d of Inl e \<Rightarrow> Inl e | Inr d' \<Rightarrow> insert_each ins rs (n + 1, d'))"

fun insert_each_caught ::
  "('r \<Rightarrow> player db \<Rightarrow> db_error + player db) \<Rightarrow> 'r list \<Rightarrow> nat \<times> player db \<Rightarrow>
   nat \<times> player db" where
  "insert_each_caught ins [] (n, d) = (n, d)"
| "insert_each_caught ins (r # rs) (n, d) =
     (case ins r d of
        Inl e \<Rightarrow> insert_each_caught ins rs (n, d)
      | Inr d' \<Rightarrow> insert_each_caught ins rs (n + 1, d'))"

definition insert_player :: "player \<Rightarrow> player db \<Rightarrow> db_error + player db" where
  "insert_player p d =
     (case insert_on_conflict_do_nothing pl_id player_name_taken p (players d) of
        Inl e \<Rightarrow> Inl e | Inr t \<Rightarrow> Inr (d\<lparr>players := t\<rparr>))"

definition insert_event :: "event \<Rightarrow> player db \<Rightarrow> db_error + player db" where
  "insert_event e d =
     (case insert_on_conflict_do_nothing ev_id (\<lambda>tbl r. None) e (events d) of
        Inl e \<Rightarrow> Inl e | Inr t \<Rightarrow> Inr (d\<lparr>events := t\<rparr>))"

definition insert_deck :: "deck \<Rightarrow> player db \<Rightarrow> db_error + player db" where
  "insert_deck k d =
     (case insert_on_conflict_do_nothing dk_id (breaks_reference (deck_fk d)) k (decks d) of
        Inl e \<Rightarrow> Inl e | Inr t \<Rightarrow> Inr (d\<lparr>decks := t\<rparr>))"

definition insert_match :: "match \<Rightarrow> player db \<Rightarrow> db_error + player db" where
  "insert_match m d =
     (case insert_on_conflict_do_nothing match_key (breaks_reference (match_fk d)) m (matches d) of
        Inl e \<Rightarrow> Inl e | Inr t \<Rightarrow> Inr (d\<lparr>matches := t\<rparr>))"

definition insert_standing :: "standing \<Rightarrow> player db \<Rightarrow> db_error + player db" where
  "insert_standing s d =
     (case insert_on_conflict_do_nothing standing_key (breaks_reference (standing_fk d)) s
             (standings d) of
        Inl e \<Rightarrow> Inl e | Inr t \<Rightarrow> Inr (d\<lparr>standings := t\<rparr>))"

definition insert_archetype :: "archetype \<Rightarrow> player db \<Rightarrow> db_error + player db" where
  "insert_archetype a d =
     (case insert_on_conflict_do_nothing ar_id (breaks_reference (archetype_fk d)) a
             (archetypes d) of
        Inl e \<Rightarrow> Inl e | Inr t \<Rightarrow> Inr (d\<lparr>archetypes := t\<rparr>))"

text \<open>The six selections from the snapshot, each against the target as it is then.\<close>

definition newPlayers :: "player db \<Rightarrow> player db \<Rightarrow> player list" where
  "newPlayers snap tgt = filter (\<lambda>p. pl_id p \<notin> player_ids tgt) (players snap)"

definition newEvents :: "player db \<Rightarrow> player db \<Rightarrow> event list" where
  "newEvents snap tgt = filter (\<lambda>e. ev_id e \<notin> event_ids tgt) (events snap)"

definition newDecks :: "player db \<Rightarrow> player db \<Rightarrow> deck list" where
  "newDecks snap tgt =
     filter (\<lambda>k. dk_id k \<notin> deck_ids tgt \<and> dk_player k \<in> player_names tgt) (decks snap)"

definition newMatches :: "player db \<Rightarrow> player db \<Rightarrow> match list" where
  "newMatches snap tgt =
     filter (\<lambda>m. match_key m \<notin> match_key ` set (matches tgt) \<and>
                 mt_player m \<in> player_names tgt \<and> mt_event_id m \<in> event_ids tgt)
       (matches snap)"

definition newStandings :: "player db \<Rightarrow> player db \<Rightarrow> standing list" where
  "newStandings snap tgt =
     filter (\<lambda>s. standing_key s \<notin> standing_key ` set (standings tgt) \<and>
                 st_player s \<in> player_names tgt \<and> st_event_id s \<in> event_ids tgt)
       (standings snap)"

definition newArchetypes :: "player db \<Rightarrow> player db \<Rightarrow> archetype list" where
  "newArchetypes snap tgt =
     filter (\<lambda>a. ar_id a \<notin> ar_id ` set (archetypes tgt) \<and>
                 (case ar_deck_id a of None \<Rightarrow> True | Some k \<Rightarrow> k \<in> deck_ids tgt))
       (archetypes snap)"

record merge_stats =
  m_events :: nat
  m_players :: nat
  m_matches :: nat
  m_decks :: nat
  m_standings :: nat
  m_archetypes :: nat

definition merge_players :: "player db \<Rightarrow> player db \<Rightarrow> db_error + nat \<times> player db" where
  "merge_players snap tgt = insert_each insert_player (newPlayers snap tgt) (0, tgt)"

definition merge_events :: "player db \<Rightarrow> player db \<Rightarrow> db_error + nat \<times> player db" where
  "merge_events snap tgt = insert_each insert_event (newEvents snap tgt) (0, tgt)"

definition merge_decks :: "player db \<Rightarrow> player db \<Rightarrow> nat \<times> player db" where
  "merge_decks snap tgt = insert_each_caught insert_deck (newDecks snap tgt) (0, tgt)"

definition merge_matches :: "player db \<Rightarrow> player db \<Rightarrow> nat \<times> player db" where
  "merge_matches snap tgt = insert_each_caught insert_match (newMatches snap tgt) (0, tgt)"

definition merge_standings :: "player db \<Rightarrow> player db \<Rightarrow> nat \<times> player db" where
  "merge_standings snap tgt =
     insert_each_caught insert_standing (newStandings snap tgt) (0, tgt)"

definition merge_archetypes :: "player db \<Rightarrow> player db \<Rightarrow> nat \<times> player db" where
  "merge_archetypes snap tgt =
     insert_each_caught insert_archetype (newArchetypes snap tgt) (0, tgt)"

definition mergeDatabases :: "player db \<Rightarrow> player db \<Rightarrow> db_error + merge_stats \<times> player db" where
  "mergeDatabases snap tgt =
     (case merge_players snap tgt of
        Inl e \<Rightarrow> Inl e
      | Inr (np, d1) \<Rightarrow>
     (case merge_events snap d1 of
        Inl e \<Rightarrow> Inl e
      | Inr (ne, d2) \<Rightarrow>
     (let (nd, d3) = merge_decks snap d2;
          (nm, d4) = merge_matches snap d3;
          (ns, d5) = merge_standings snap d4;
          (na, d6) = merge_archetypes snap d5
      in Inr (\<lparr>m_events = ne, m_players = np, m_matches = nm, m_decks = nd,
                m_standings = ns, m_archetypes = na\<rparr>, d6))))"

section \<open>Example databases\<close>

definition empty_db :: "'p db" where
  "empty_db = \<lparr>events = [], players = [], standings = [], matches = [], decks = [],
     archetypes = []\<rparr>"

definition mk_event :: "int \<Rightarrow> int \<Rightarrow> int option \<Rightarrow> event" where
  "mk_event i t n = \<lparr>ev_id = i, ev_name = ''Event'', ev_date = t, ev_format = ''Modern'',
     ev_kind = ''League'', ev_rounds = None, ev_players = n\<rparr>"

definition mk_standing :: "int \<Rightarrow> int \<Rightarrow> string \<Rightarrow> standing" where
  "mk_standing e r p = \<lparr>st_event_id = e, st_rank = r, st_player = p, st_record = ''3-0'',
     st_points = 9, st_omwp = ''0.5'', st_gwp = ''0.5'', st_owp = ''0.5''\<rparr>"

definition mk_match :: "int \<Rightarrow> int \<Rightarrow> int \<Rightarrow> string \<Rightarrow> match" where
  "mk_match i e r p = \<lparr>mt_id = i, mt_event_id = e, mt_round = r, mt_player = p,
     mt_opponent = ''Opp'', mt_record = ''2-0'', mt_result = ''win'', mt_isbye = False,
     mt_games = ''[]''\<rparr>"

definition mk_deck :: "int \<Rightarrow> int \<Rightarrow> string \<Rightarrow> deck" where
  "mk_deck i e p = \<lparr>dk_id = i, dk_event_id = e, dk_player = p, dk_mainboard = ''[]'',
     dk_sideboard = ''[]''\<rparr>"

text \<open>
  Upstream has event 100 with standings for Alice (upstream id 7), Carol (upstream id 9)
  and Dave (no upstream player row); the target knows Bob under id 7 and Eve under the
  negative id -3.
\<close>

definition upstream_A :: "upstream_player db" where
  "upstream_A = empty_db\<lparr>events := [mk_event 100 5 (Some 3)],
     players := [\<lparr>up_id = Some 7, up_name = ''Alice''\<rparr>, \<lparr>up_id = Some 9, up_name = ''Carol''\<rparr>],
     standings := [mk_standing 100 1 ''Alice'', mk_standing 100 2 ''Carol'',
                   mk_standing 100 3 ''Dave'']\<rparr>"

definition locals_A :: "player list" where
  "locals_A = [\<lparr>pl_id = 7, pl_name = ''Bob''\<rparr>, \<lparr>pl_id = -3, pl_name = ''Eve''\<rparr>]"

text \<open>
  Upstream has event 100 with a standing for Alice, whose upstream id is -1; the target
  knows Bob under the id -1.
\<close>

definition upstream_B :: "upstream_player db" where
  "upstream_B = empty_db\<lparr>events := [mk_event 100 5 (Some 1)],
     players := [\<lparr>up_id = Some (-1), up_name = ''Alice''\<rparr>],
     standings := [mk_standing 100 1 ''Alice'']\<rparr>"

definition locals_B :: "player list" where
  "locals_B = [\<lparr>pl_id = -1, pl_name = ''Bob''\<rparr>]"

definition conn_B :: conn where
  "conn_B = \<lparr>data = empty_db\<lparr>players := locals_B\<rparr>, journal = []\<rparr>"

section \<open>Sequences of runs\<close>

text \<open>One run after another on the same target, each against the upstream of its time.\<close>

definition runs :: "upstream_player db list \<Rightarrow> conn \<Rightarrow> conn" where
  "runs ups c = fold (\<lambda>up c. snd (sync up c)) ups c"

definition conn_A :: conn where
  "conn_A = \<lparr>data = empty_db\<lparr>players := locals_A\<rparr>, journal = []\<rparr>"

text \<open>Later, upstream also has event 101 with a standing for Frank, who has no upstream
  player row.\<close>

definition upstream_C :: "upstream_player db" where
  "upstream_C = upstream_A\<lparr>events := events upstream_A @ [mk_event 101 6 (Some 1)],
     standings := standings upstream_A @ [mk_standing 101 1 ''Frank'']\<rparr>"

text \<open>
  A target with event 200 (player count 8, no standings, one match), event 201 (player
  count 8, with a standing and a match) and event 202 (null player count, no rows).
\<close>

definition local_D :: "player db" where
  "local_D = empty_db\<lparr>
     events := [mk_event 200 3 (Some 8), mk_event 201 4 (Some 8), mk_event 202 5 None],
     players := [\<lparr>pl_id = 7, pl_name = ''Alice''\<rparr>],
     standings := [mk_standing 201 1 ''Alice''],
     matches := [mk_match 1 200 1 ''Alice'', mk_match 2 201 1 ''Alice'']\<rparr>"

text \<open>A target whose only event has the player count -1 and no rows.\<close>

definition local_E :: "player db" where
  "local_E = empty_db\<lparr>events := [mk_event 300 1 (Some (- 1))]\<rparr>"

text \<open>
  A target that has event 100 and the players Alice, Carol and Dave, and no standings
  yet; and the three standings of event 100.
\<close>

definition conn_G :: conn where
  "conn_G = \<lparr>data = empty_db\<lparr>events := [mk_event 100 5 (Some 3)],
       players := [\<lparr>pl_id = 7, pl_name = ''Alice''\<rparr>, \<lparr>pl_id = 9, pl_name = ''Carol''\<rparr>,
                   \<lparr>pl_id = -1, pl_name = ''Dave''\<rparr>]\<rparr>,
     journal = []\<rparr>"

definition rows_G :: "standing list" where
  "rows_G = [mk_standing 100 1 ''Alice'', mk_standing 100 2 ''Carol'',
     mk_standing 100 3 ''Dave'']"

section \<open>The order of the stages\<close>



text \<open>
  An upstream for the target \<open>local_D\<close>: it has event 200 with another date than the
  target has, a standing and a match for it, and an event 203 that the target lacks.
\<close>

definition upstream_D :: "upstream_player db" where
  "upstream_D = empty_db\<lparr>
     events := [mk_event 200 9 (Some 8), mk_event 203 10 (Some 2)],
     players := [\<lparr>up_id = Some 7, up_name = ''Alice''\<rparr>],
     standings := [mk_standing 200 1 ''Alice''],
     matches := [mk_match 1 200 1 ''Alice'']\<rparr>"

definition conn_D :: conn where
  "conn_D = \<lparr>data = local_D, journal = []\<rparr>"

text \<open>
  A snapshot whose decks and matches reference, besides event 100, an event 999 that
  neither the snapshot nor the target has, and a player Zed that nobody has; the target
  has event 100 and Alice.
\<close>

definition target_H :: "player db" where
  "target_H = empty_db\<lparr>events := [mk_event 100 5 (Some 2)],
     players := [\<lparr>pl_id = 7, pl_name = ''Alice''\<rparr>]\<rparr>"

definition snapshot_H :: "player db" where
  "snapshot_H = empty_db\<lparr>events := [mk_event 100 5 (Some 2)],
     players := [\<lparr>pl_id = 7, pl_name = ''Alice''\<rparr>],
     matches := [mk_match 1 999 1 ''Alice'', mk_match 2 100 1 ''Alice'', mk_match 3 100 1 ''Zed''],
     decks := [mk_deck 1 999 ''Alice'', mk_deck 2 100 ''Alice'']\<rparr>"

text \<open>
  An upstream with two matches of event 100, one of Alice and one of Zed, and a target
  connection that has event 100 and Alice but not Zed.
\<close>

definition upstream_H :: "upstream_player db" where
  "upstream_H = empty_db\<lparr>events := [mk_event 100 5 (Some 2)],
     matches := [mk_match 2 100 1 ''Alice'', mk_match 3 100 1 ''Zed'']\<rparr>"

definition conn_H :: conn where
  "conn_H = \<lparr>data = target_H, journal = []\<rparr>"

section \<open>Records that a table already holds\<close>

text \<open>
  The records are settled in the table when each of them has its key there and every
  row of the table with that key is the record itself.
\<close>

definition settled :: "('r \<Rightarrow> 'k) \<Rightarrow> 'r list \<Rightarrow> 'r list \<Rightarrow> bool" where
  "settled key rows tbl \<longleftrightarrow>
     (\<forall>r \<in> set rows. key r \<in> key ` set tbl \<and> (\<forall>x \<in> set tbl. key x = key r \<longrightarrow> x = r))"

text \<open>
  An upstream with event 300 (player count 2), a match of Alice in it and no standings;
  and an empty target.
\<close>

definition upstream_K :: "upstream_player db" where
  "upstream_K = empty_db\<lparr>events := [mk_event 300 7 (Some 2)],
     players := [\<lparr>up_id = Some 7, up_name = ''Alice''\<rparr>],
     matches := [mk_match 1 300 1 ''Alice'']\<rparr>"

definition conn_K :: conn where
  "conn_K = \<lparr>data = empty_db, journal = []\<rparr>"

section \<open>Properties of the identity reconciler\<close>

lemma loop_names:
  "map pl_name (playersToSync_loop um lm ids nxt ns) = filter (\<lambda>n. lm n = None) ns"
  by (induction ns arbitrary: nxt) (auto split: prod.splits)

lemma dom_fold_name_map:
  "dom (fold (\<lambda>p m. m(pl_name p \<mapsto> pl_id p)) lps m0) = dom m0 \<union> pl_name ` set lps"
  by (induction lps arbitrary: m0) auto

lemma localPlayerNameMap_None:
  "localPlayerNameMap lps n = None \<longleftrightarrow> n \<notin> pl_name ` set lps"
proof -
  have "localPlayerNameMap lps n = None \<longleftrightarrow> n \<notin> dom (localPlayerNameMap lps)"
    by (simp add: domIff)
  also have "dom (localPlayerNameMap lps) = pl_name ` set lps"
    unfolding localPlayerNameMap_def by (simp add: dom_fold_name_map)
  finally show ?thesis .
qed

lemma pick_id_adopt:
  "um n = Some (Some u) \<Longrightarrow> u \<le> 0 \<or> u \<notin> ids \<Longrightarrow> pick_id um ids nxt n = (u, nxt)"
  by (auto simp: pick_id_def)

lemma pick_id_synth:
  "(case um n of Some (Some u) \<Rightarrow> 0 < u \<and> u \<in> ids | _ \<Rightarrow> True) \<Longrightarrow> nxt < 0 \<Longrightarrow>
   pick_id um ids nxt n = (nxt, nxt - 1)"
  by (auto simp: pick_id_def split: option.splits)

lemma loop_adopted:
  "p \<in> set (playersToSync_loop um lm ids nxt ns) \<Longrightarrow> um (pl_name p) = Some (Some u) \<Longrightarrow>
   u \<le> 0 \<or> u \<notin> ids \<Longrightarrow> pl_id p = u"
  by (induction ns arbitrary: nxt) (auto split: prod.splits if_splits simp: pick_id_adopt)

lemma upt_Suc_shift: "map f [0..<Suc m] = f 0 # map (\<lambda>k. f (Suc k)) [0..<m]"
  by (simp add: upt_conv_Cons map_Suc_upt[symmetric] del: upt_Suc)

text \<open>The ids taken from the counter are the counter's successive values.\<close>

lemma loop_synth:
  "nxt < 0 \<Longrightarrow>
   map pl_id (filter (\<lambda>p. case um (pl_name p) of Some (Some u) \<Rightarrow> 0 < u \<and> u \<in> ids | _ \<Rightarrow> True)
       (playersToSync_loop um lm ids nxt ns)) =
   map (\<lambda>k. nxt - int k)
     [0..<length (filter (\<lambda>p. case um (pl_name p) of Some (Some u) \<Rightarrow> 0 < u \<and> u \<in> ids | _ \<Rightarrow> True)
       (playersToSync_loop um lm ids nxt ns))]"
proof (induction ns arbitrary: nxt)
  case Nil
  then show ?case by simp
next
  case (Cons n ns)
  show ?case
  proof (cases "lm n \<noteq> None")
    case True
    then show ?thesis using Cons by simp
  next
    case notlocal: False
    show ?thesis
    proof (cases "case um n of Some (Some u) \<Rightarrow> 0 < u \<and> u \<in> ids | _ \<Rightarrow> True")
      case True
      then have pk: "pick_id um ids nxt n = (nxt, nxt - 1)"
        using Cons.prems by (rule pick_id_synth)
      have "nxt - 1 < 0" using Cons.prems by simp
      from Cons.IH [OF this] True notlocal pk show ?thesis
        by (simp add: upt_Suc_shift del: upt_Suc)
    next
      case False
      then obtain u where u: "um n = Some (Some u)" "u \<le> 0 \<or> u \<notin> ids"
        by (auto split: option.splits)
      then have pk: "pick_id um ids nxt n = (u, nxt)" by (rule pick_id_adopt)
      from Cons.IH [OF Cons.prems] False notlocal pk show ?thesis by simp
    qed
  qed
qed

lemma minNegativeId_le0: "minNegativeId lps \<le> 0"
proof (cases "negativeIds lps = []")
  case True
  then show ?thesis by (simp add: minNegativeId_def)
next
  case False
  then have "Min (set (negativeIds lps)) \<in> set (negativeIds lps)" by (intro Min_in) auto
  then show ?thesis using False by (auto simp: minNegativeId_def negativeIds_def)
qed

lemma names_A: "referencedPlayerNames upstream_A [100] = [''Alice'', ''Carol'', ''Dave'']"
  by (simp add: referencedPlayerNames_def upstream_A_def empty_db_def mk_standing_def)

lemma um_A:
  "upstreamPlayerMap (upstreamPlayers upstream_A [''Alice'', ''Carol'', ''Dave'']) =
     [''Alice'' \<mapsto> Some 7, ''Carol'' \<mapsto> Some 9]"
  by (simp add: upstreamPlayerMap_def upstreamPlayers_def upstream_A_def empty_db_def)

lemma plan_A:
  "playersToSync upstream_A locals_A [''Alice'', ''Carol'', ''Dave''] =
     [\<lparr>pl_id = -4, pl_name = ''Alice''\<rparr>, \<lparr>pl_id = 9, pl_name = ''Carol''\<rparr>,
      \<lparr>pl_id = -5, pl_name = ''Dave''\<rparr>]"
  by (simp add: playersToSync_def um_A localPlayerNameMap_def localPlayerIdSet_def
      minNegativeId_def negativeIds_def locals_A_def pick_id_def)

text \<open>
  The plan as the loop computes it.  For the player names referenced by the worklist's
  events (each name once), the Players stage plans exactly one row for every name that
  is not on the target, in the order of the names, so no name gets two ids.  A name whose
  upstream id exists and is unused on the target gets that upstream id as it is; so
  does, by the test of the loop, a name whose upstream id is not positive.  Every
  other name (no upstream id, a null one, or a positive one that a target player already
  uses) is synthesized: the synthesized ids are, in order, one below the lowest negative
  id on the target (or -1 when there is none), then one lower each time.
\<close>

theorem syncPlayers_assigned_ids:
  "let names = referencedPlayerNames up eventIds;
       um = upstreamPlayerMap (upstreamPlayers up names);
       ids = localPlayerIdSet localPlayers;
       plan = playersToSync up localPlayers names;
       synthesized = filter (\<lambda>p. case um (pl_name p) of
                                    Some (Some u) \<Rightarrow> 0 < u \<and> u \<in> ids | _ \<Rightarrow> True) plan
   in map pl_name plan = filter (\<lambda>n. n \<notin> pl_name ` set localPlayers) names \<and>
      distinct (map pl_name plan) \<and>
      (\<forall>p \<in> set plan. \<forall>u. um (pl_name p) = Some (Some u) \<and> (u \<le> 0 \<or> u \<notin> ids) \<longrightarrow>
          pl_id p = u) \<and>
      map pl_id synthesized =
        map (\<lambda>k. minNegativeId localPlayers - 1 - int k) [0..<length synthesized]"
proof -
  define names where "names = referencedPlayerNames up eventIds"
  define um where "um = upstreamPlayerMap (upstreamPlayers up names)"
  define ids where "ids = localPlayerIdSet localPlayers"
  define plan where "plan = playersToSync up localPlayers names"
  have plan: "plan = playersToSync_loop um (localPlayerNameMap localPlayers) ids
                (minNegativeId localPlayers - 1) names"
    by (simp add: plan_def playersToSync_def um_def ids_def)
  have dn: "distinct names" by (simp add: names_def referencedPlayerNames_def)
  have 1: "map pl_name plan = filter (\<lambda>n. n \<notin> pl_name ` set localPlayers) names"
    unfolding plan loop_names by (simp add: localPlayerNameMap_None)
  have 2: "distinct (map pl_name plan)" unfolding 1 using dn by simp
  have 3: "\<forall>p \<in> set plan. \<forall>u. um (pl_name p) = Some (Some u) \<and> (u \<le> 0 \<or> u \<notin> ids) \<longrightarrow>
             pl_id p = u"
    unfolding plan by (blast intro: loop_adopted)
  have neg: "minNegativeId localPlayers - 1 < 0"
    using minNegativeId_le0 [of localPlayers] by simp
  have 4: "map pl_id (filter (\<lambda>p. case um (pl_name p) of
                                    Some (Some u) \<Rightarrow> 0 < u \<and> u \<in> ids | _ \<Rightarrow> True) plan) =
        map (\<lambda>k. minNegativeId localPlayers - 1 - int k)
          [0..<length (filter (\<lambda>p. case um (pl_name p) of
                                    Some (Some u) \<Rightarrow> 0 < u \<and> u \<in> ids | _ \<Rightarrow> True) plan)]"
    unfolding plan by (rule loop_synth [OF neg])
  show ?thesis
    using 1 2 3 4
    unfolding Let_def names_def [symmetric] um_def [symmetric] ids_def [symmetric]
      plan_def [symmetric]
    by blast
qed

text \<open>
  At the first example: Alice's upstream id 7 is Bob's on the target, so she is
  synthesized (-4, one below Eve's -3); Carol's upstream id 9 is free and is adopted;
  Dave has no upstream id and is synthesized next (-5).
\<close>

theorem syncPlayers_assigned_ids_witness:
  "playersToSync upstream_A locals_A (referencedPlayerNames upstream_A [100]) =
     [\<lparr>pl_id = -4, pl_name = ''Alice''\<rparr>, \<lparr>pl_id = 9, pl_name = ''Carol''\<rparr>,
      \<lparr>pl_id = -5, pl_name = ''Dave''\<rparr>] \<and>
   upstreamPlayerMap (upstreamPlayers upstream_A (referencedPlayerNames upstream_A [100]))
     ''Carol'' = Some (Some 9) \<and>
   9 \<notin> localPlayerIdSet locals_A \<and>
   minNegativeId locals_A - 1 = -4"
  using syncPlayers_assigned_ids [of upstream_A "[100]" locals_A]
  by (simp add: names_A um_A plan_A)
     (simp add: localPlayerIdSet_def locals_A_def minNegativeId_def negativeIds_def)

text \<open>
  C1.  The claim, like the comment in the loop, asks that a name whose upstream id is
  held by a different player of the target gets an id below the lowest negative id of
  the target.  At this input the code does otherwise.  Alice is not on the target and
  her upstream id -1 is Bob's id there.  The collision test of the loop applies to
  positive ids only, so the plan gives Alice the id -1 and not -2, the id one below the
  lowest negative id of the target.  The insert then breaks the unique key on the
  player id: the Players stage ends with the error, and the run exits with it and
  leaves the target as it was.
\<close>

theorem syncPlayers_collision_run:
  "upstreamPlayerMap (upstreamPlayers upstream_B (referencedPlayerNames upstream_B [100]))
     ''Alice'' = Some (Some (-1)) \<and>
   \<lparr>pl_id = -1, pl_name = ''Bob''\<rparr> \<in> set (players (data conn_B)) \<and>
   ''Alice'' \<notin> pl_name ` set (players (data conn_B)) \<and>
   minNegativeId (players (data conn_B)) - 1 = -2 \<and>
   playersToSync upstream_B (players (data conn_B)) (referencedPlayerNames upstream_B [100]) =
     [\<lparr>pl_id = -1, pl_name = ''Alice''\<rparr>] \<and>
   syncPlayers upstream_B [100] conn_B = (Inl UniqueViolation, conn_B) \<and>
   sync upstream_B conn_B = (Exit1 UniqueViolation, conn_B)"
proof -
  have a: "upstreamPlayerMap (upstreamPlayers upstream_B (referencedPlayerNames upstream_B [100]))
     ''Alice'' = Some (Some (-1))"
    by (simp add: referencedPlayerNames_def upstreamPlayerMap_def upstreamPlayers_def
        upstream_B_def empty_db_def mk_standing_def)
  have b: "\<lparr>pl_id = -1, pl_name = ''Bob''\<rparr> \<in> set (players (data conn_B))"
    by (simp add: conn_B_def locals_B_def)
  have c: "''Alice'' \<notin> pl_name ` set (players (data conn_B))"
    by (simp add: conn_B_def locals_B_def)
  have d: "minNegativeId (players (data conn_B)) - 1 = -2"
    by (simp add: conn_B_def locals_B_def minNegativeId_def negativeIds_def)
  have e: "playersToSync upstream_B (players (data conn_B))
      (referencedPlayerNames upstream_B [100]) = [\<lparr>pl_id = -1, pl_name = ''Alice''\<rparr>]"
    by (simp add: referencedPlayerNames_def upstreamPlayerMap_def upstreamPlayers_def
        upstream_B_def empty_db_def mk_standing_def conn_B_def locals_B_def minNegativeId_def
        negativeIds_def playersToSync_def localPlayerNameMap_def localPlayerIdSet_def
        pick_id_def)
  have f: "syncPlayers upstream_B [100] conn_B = (Inl UniqueViolation, conn_B)"
    by code_simp
  have g: "sync upstream_B conn_B = (Exit1 UniqueViolation, conn_B)"
    by code_simp
  from a b c d e f g show ?thesis by (intro conjI)
qed

lemma planned_names_new:
  "p \<in> set (playersToSync up lps names) \<Longrightarrow> pl_name p \<notin> pl_name ` set lps"
proof -
  assume "p \<in> set (playersToSync up lps names)"
  then have "pl_name p \<in> set (map pl_name (playersToSync up lps names))" by simp
  then show ?thesis
    unfolding playersToSync_def loop_names by (simp add: localPlayerNameMap_None)
qed

lemma planned_synthesized:
  "map pl_id (filter (\<lambda>p. case upstreamPlayerMap (upstreamPlayers up names) (pl_name p) of
                             Some (Some u) \<Rightarrow> 0 < u \<and> u \<in> localPlayerIdSet lps | _ \<Rightarrow> True)
      (playersToSync up lps names)) =
   map (\<lambda>k. minNegativeId lps - 1 - int k)
     [0..<length (filter (\<lambda>p. case upstreamPlayerMap (upstreamPlayers up names) (pl_name p) of
                             Some (Some u) \<Rightarrow> 0 < u \<and> u \<in> localPlayerIdSet lps | _ \<Rightarrow> True)
      (playersToSync up lps names))]"
proof -
  have "minNegativeId lps - 1 < 0" using minNegativeId_le0 [of lps] by simp
  from loop_synth [OF this] show ?thesis unfolding playersToSync_def .
qed

lemma minNegativeId_lower: "i \<in> localPlayerIdSet lps \<Longrightarrow> minNegativeId lps \<le> i"
proof (cases "i < 0")
  case False
  then show ?thesis using minNegativeId_le0 [of lps] by simp
next
  case True
  assume "i \<in> localPlayerIdSet lps"
  with True have i: "i \<in> set (negativeIds lps)"
    by (auto simp: localPlayerIdSet_def negativeIds_def)
  then have "Min (set (negativeIds lps)) \<le> i" by (intro Min_le) auto
  with i show ?thesis by (auto simp: minNegativeId_def)
qed

section \<open>What a run does to the player table\<close>

lemma insert_players_appends:
  "insert_players_on_conflict_name_do_nothing tbl batch = Inr tbl' \<Longrightarrow>
   \<exists>added. tbl' = tbl @ added \<and> set added \<subseteq> set batch \<and>
     (\<forall>p \<in> set added. pl_name p \<notin> pl_name ` set tbl)"
proof (induction batch arbitrary: tbl)
  case Nil
  then show ?case by simp
next
  case (Cons p ps)
  show ?case
  proof (cases "pl_name p \<in> pl_name ` set tbl")
    case True
    with Cons.prems have "insert_players_on_conflict_name_do_nothing tbl ps = Inr tbl'" by simp
    from Cons.IH [OF this] show ?thesis by auto
  next
    case False
    with Cons.prems have *: "pl_id p \<notin> pl_id ` set tbl"
      "insert_players_on_conflict_name_do_nothing (tbl @ [p]) ps = Inr tbl'"
      by (auto split: if_splits)
    from Cons.IH [OF *(2)] obtain added where
      a: "tbl' = (tbl @ [p]) @ added" "set added \<subseteq> set ps"
         "\<forall>q \<in> set added. pl_name q \<notin> pl_name ` set (tbl @ [p])" by blast
    have "tbl' = tbl @ (p # added)" using a(1) by simp
    moreover have "set (p # added) \<subseteq> set (p # ps)" using a(2) by auto
    moreover have "\<forall>q \<in> set (p # added). pl_name q \<notin> pl_name ` set tbl"
      using a(3) False by auto
    ultimately show ?thesis by blast
  qed
qed

lemma insert_players_distinct_ids:
  "insert_players_on_conflict_name_do_nothing tbl batch = Inr tbl' \<Longrightarrow>
   distinct (map pl_id tbl) \<Longrightarrow> distinct (map pl_id tbl')"
  by (induction batch arbitrary: tbl) (auto split: if_splits)

text \<open>Invariants of the batching loop and of the sequencing.\<close>

lemma batch_loop_invariant:
  assumes "\<And>b c c'. stmt b c = Inr c' \<Longrightarrow> P c \<Longrightarrow> P c'" and "P c"
  shows "P (snd (batch_loop n stmt rows i c))"
  using assms
proof (induction n stmt rows i c rule: batch_loop.induct)
  case (1 n stmt rows i c)
  show ?case
  proof (cases "i < length rows \<and> 0 < n")
    case False
    then show ?thesis using "1.prems"(2) by (subst batch_loop.simps) auto
  next
    case True
    show ?thesis
    proof (cases "stmt (take n (drop i rows)) c")
      case (Inl e)
      then show ?thesis using True "1.prems"(2) by (subst batch_loop.simps) simp
    next
      case (Inr c')
      have "P c'" using "1.prems"(1) [OF Inr "1.prems"(2)] .
      from "1.IH" [OF True Inr "1.prems"(1) this] show ?thesis using True Inr
        by (subst batch_loop.simps) simp
    qed
  qed
qed

lemma batched_invariant:
  assumes "\<And>b c c'. stmt b c = Inr c' \<Longrightarrow> P c \<Longrightarrow> P c'" and "P c"
  shows "P (snd (batched n stmt rows c))"
proof -
  have "snd (batched n stmt rows c) = snd (batch_loop n stmt rows 0 c)"
    by (simp add: batched_def split: prod.splits option.splits)
  then show ?thesis using batch_loop_invariant [of stmt P, OF assms] by simp
qed

lemma then_stage_invariant:
  assumes "P (snd r)" and "\<And>a c. P c \<Longrightarrow> P (snd (f a c))"
  shows "P (snd (then_stage r f))"
  using assms by (auto simp: then_stage_def split: prod.splits sum.splits)

text \<open>The five upserts leave the player table alone.\<close>

lemma upsert_events_players:
  "upsert_events b c = Inr c' \<Longrightarrow> players (data c') = players (data c)"
  by (auto simp: upsert_events_def commit_def split: sum.splits)

lemma upsert_standings_players:
  "upsert_standings b c = Inr c' \<Longrightarrow> players (data c') = players (data c)"
  by (auto simp: upsert_standings_def commit_def split: sum.splits)

lemma upsert_matches_players:
  "upsert_matches b c = Inr c' \<Longrightarrow> players (data c') = players (data c)"
  by (auto simp: upsert_matches_def commit_def split: sum.splits)

lemma upsert_decks_players:
  "upsert_decks b c = Inr c' \<Longrightarrow> players (data c') = players (data c)"
  by (auto simp: upsert_decks_def commit_def split: sum.splits)

lemma upsert_archetypes_players:
  "upsert_archetypes b c = Inr c' \<Longrightarrow> players (data c') = players (data c)"
  by (auto simp: upsert_archetypes_def commit_def split: sum.splits)

lemma syncEvents_players:
  "P (players (data c)) \<Longrightarrow> P (players (data (snd (syncEvents evs c))))"
  by (auto simp: syncEvents_def split: sum.splits dest: upsert_events_players)

lemma syncStandings_players:
  assumes "P (players (data c))"
  shows "P (players (data (snd (syncStandings up ids c))))"
proof -
  have "\<And>rows. P (players (data (snd (batched STANDINGS_BATCH_SIZE upsert_standings rows c))))"
    by (rule batched_invariant [where P = "\<lambda>c. P (players (data c))"])
       (simp_all add: upsert_standings_players assms)
  then show ?thesis using assms by (simp add: syncStandings_def Let_def)
qed

lemma syncMatches_players:
  assumes "P (players (data c))"
  shows "P (players (data (snd (syncMatches up ids c))))"
proof -
  have "\<And>rows. P (players (data (snd (batched MATCHES_BATCH_SIZE upsert_matches rows c))))"
    by (rule batched_invariant [where P = "\<lambda>c. P (players (data c))"])
       (simp_all add: upsert_matches_players assms)
  then show ?thesis using assms by (simp add: syncMatches_def Let_def)
qed

lemma syncDecks_players:
  assumes "P (players (data c))"
  shows "P (players (data (snd (syncDecks up ids c))))"
proof -
  have "\<And>rows. P (players (data (snd (batched DECKS_BATCH_SIZE upsert_decks rows c))))"
    by (rule batched_invariant [where P = "\<lambda>c. P (players (data c))"])
       (simp_all add: upsert_decks_players assms)
  then show ?thesis using assms by (simp add: syncDecks_def Let_def)
qed

lemma syncArchetypes_players:
  assumes "P (players (data c))"
  shows "P (players (data (snd (syncArchetypes up ids c))))"
proof -
  have "\<And>rows. P (players (data (snd (batched ARCHETYPES_BATCH_SIZE upsert_archetypes rows c))))"
    by (rule batched_invariant [where P = "\<lambda>c. P (players (data c))"])
       (simp_all add: upsert_archetypes_players assms)
  then show ?thesis using assms by (simp add: syncArchetypes_def Let_def)
qed

lemma syncPlayers_cases:
  "snd (syncPlayers up ids c) = c \<or>
   (\<exists>plan tbl. insert_players_on_conflict_name_do_nothing (players (data c)) plan = Inr tbl \<and>
      snd (syncPlayers up ids c) = commit Players ((data c)\<lparr>players := tbl\<rparr>) c)"
  by (auto simp: syncPlayers_def Let_def insert_players_def split: sum.splits)

text \<open>A property of the player table that the Players stage keeps is kept by a run.\<close>

lemma stages_players:
  assumes "\<And>ids c. P (players (data c)) \<Longrightarrow> P (players (data (snd (syncPlayers up ids c))))"
    and "P (players (data c))"
  shows "P (players (data (snd (stages up new inc c))))"
  unfolding stages_def Let_def
  apply (rule then_stage_invariant [where P = "\<lambda>c. P (players (data c))"])
   apply (rule assms(1) [OF assms(2)])
  apply (rule then_stage_invariant [where P = "\<lambda>c. P (players (data c))"])
   apply (simp add: syncEvents_players)
  apply (rule then_stage_invariant [where P = "\<lambda>c. P (players (data c))"])
   apply (erule syncStandings_players)
  apply (rule then_stage_invariant [where P = "\<lambda>c. P (players (data c))"])
   apply (erule syncMatches_players)
  apply (rule then_stage_invariant [where P = "\<lambda>c. P (players (data c))"])
   apply (erule syncDecks_players)
  apply (rule then_stage_invariant [where P = "\<lambda>c. P (players (data c))"])
   apply (erule syncArchetypes_players)
  apply simp
  done

lemma sync_players:
  assumes "\<And>ids c. P (players (data c)) \<Longrightarrow> P (players (data (snd (syncPlayers up ids c))))"
    and "P (players (data c))"
  shows "P (players (data (snd (sync up c))))"
proof -
  have "snd (sync up c) = c \<or>
        snd (sync up c) =
          snd (stages up (getUpstreamEvents up (getLocalEventIds c))
                 (getIncompleteEventIds (data c)) c)"
    by (auto simp: sync_def Let_def split: prod.splits sum.splits)
  then show ?thesis using assms(2) stages_players [of P up, OF assms] by auto
qed

lemma syncPlayers_appends:
  "\<exists>added. players (data (snd (syncPlayers up ids c))) = players (data c) @ added \<and>
     (\<forall>p \<in> set added. pl_name p \<notin> pl_name ` set (players (data c)))"
  using syncPlayers_cases [of up ids c]
proof
  assume "snd (syncPlayers up ids c) = c"
  then show ?thesis by simp
next
  assume "\<exists>plan tbl.
      insert_players_on_conflict_name_do_nothing (players (data c)) plan = Inr tbl \<and>
      snd (syncPlayers up ids c) = commit Players ((data c)\<lparr>players := tbl\<rparr>) c"
  then obtain plan tbl where
    *: "insert_players_on_conflict_name_do_nothing (players (data c)) plan = Inr tbl"
       "snd (syncPlayers up ids c) = commit Players ((data c)\<lparr>players := tbl\<rparr>) c" by blast
  from insert_players_appends [OF *(1)] show ?thesis using *(2) by (auto simp: commit_def)
qed

lemma syncPlayers_distinct_ids:
  assumes "distinct (map pl_id (players (data c)))"
  shows "distinct (map pl_id (players (data (snd (syncPlayers up ids c)))))"
  using syncPlayers_cases [of up ids c] assms
  by (auto simp: commit_def dest: insert_players_distinct_ids)

lemma syncPlayers_extends:
  assumes "\<exists>added. players (data c) = base @ added"
  shows "\<exists>added. players (data (snd (syncPlayers up ids c))) = base @ added"
  using syncPlayers_appends [of up ids c] assms by auto

lemma sync_extends: "\<exists>added. players (data (snd (sync up c))) = players (data c) @ added"
  by (rule sync_players [where P = "\<lambda>t. \<exists>added. t = players (data c) @ added"])
     (auto intro: syncPlayers_extends)

lemma sync_distinct_ids:
  "distinct (map pl_id (players (data c))) \<Longrightarrow>
   distinct (map pl_id (players (data (snd (sync up c)))))"
  by (rule sync_players [where P = "\<lambda>t. distinct (map pl_id t)"])
     (auto intro: syncPlayers_distinct_ids)

lemma runs_extends: "\<exists>added. players (data (runs ups c)) = players (data c) @ added"
proof (induction ups arbitrary: c)
  case Nil
  then show ?case by (simp add: runs_def)
next
  case (Cons up ups)
  obtain a1 where a1: "players (data (snd (sync up c))) = players (data c) @ a1"
    using sync_extends by blast
  obtain a2 where
    "players (data (runs ups (snd (sync up c)))) = players (data (snd (sync up c))) @ a2"
    using Cons.IH by blast
  then have "players (data (runs (up # ups) c)) = players (data c) @ (a1 @ a2)"
    using a1 by (simp add: runs_def)
  then show ?case by blast
qed

lemma runs_distinct_ids:
  "distinct (map pl_id (players (data c))) \<Longrightarrow>
   distinct (map pl_id (players (data (runs ups c))))"
proof (induction ups arbitrary: c)
  case Nil
  then show ?case by (simp add: runs_def)
next
  case (Cons up ups)
  from Cons.IH [OF sync_distinct_ids [OF Cons.prems]] show ?case by (simp add: runs_def)
qed

lemma sync_A:
  "sync upstream_A conn_A =
    (Completed \<lparr>new_events = 1, updated_events = 0, total_events = 1, sum_players = 3,
       sum_standings = 3, sum_matches = 0, sum_decks = 0, sum_archetypes = 0\<rparr>,
     \<lparr>data = \<lparr>events = [mk_event 100 5 (Some 3)],
              players = locals_A @ [\<lparr>pl_id = -4, pl_name = ''Alice''\<rparr>,
                \<lparr>pl_id = 9, pl_name = ''Carol''\<rparr>, \<lparr>pl_id = -5, pl_name = ''Dave''\<rparr>],
              standings = [mk_standing 100 1 ''Alice'', mk_standing 100 2 ''Carol'',
                mk_standing 100 3 ''Dave''],
              matches = [], decks = [], archetypes = []\<rparr>,
       journal = [Players, Events, Standings]\<rparr>)"
  by code_simp

text \<open>
  C10.  A player row already on the target is never modified by the Players stage.  The
  rows the stage plans all carry names that are not on the target; the insert, for any
  batch, only appends rows, and only rows whose name the table did not have; so after
  the stage, and after the whole run (completed or not), the player table is the table
  as it was, row for row, followed by the rows added.
\<close>

theorem players_stage_keeps_existing_rows:
  "(\<forall>p \<in> set (playersToSync up (players (data c)) names).
      pl_name p \<notin> pl_name ` set (players (data c))) \<and>
   (\<forall>tbl batch tbl'. insert_players_on_conflict_name_do_nothing tbl batch = Inr tbl' \<longrightarrow>
      (\<exists>added. tbl' = tbl @ added \<and> (\<forall>p \<in> set added. pl_name p \<notin> pl_name ` set tbl))) \<and>
   (\<exists>added. players (data (snd (syncPlayers up eventIds c))) = players (data c) @ added) \<and>
   (\<exists>added. players (data (snd (sync up c))) = players (data c) @ added)"
proof (intro conjI)
  show "\<forall>p \<in> set (playersToSync up (players (data c)) names).
      pl_name p \<notin> pl_name ` set (players (data c))"
    using planned_names_new by blast
  show "\<forall>tbl batch tbl'. insert_players_on_conflict_name_do_nothing tbl batch = Inr tbl' \<longrightarrow>
      (\<exists>added. tbl' = tbl @ added \<and> (\<forall>p \<in> set added. pl_name p \<notin> pl_name ` set tbl))"
    using insert_players_appends by blast
  show "\<exists>added. players (data (snd (syncPlayers up eventIds c))) = players (data c) @ added"
    using syncPlayers_appends [of up eventIds c] by blast
  show "\<exists>added. players (data (snd (sync up c))) = players (data c) @ added"
    by (rule sync_extends)
qed

text \<open>At the first example the run keeps Bob and Eve as they were and adds three rows.\<close>

theorem players_stage_keeps_existing_rows_witness:
  "players (data conn_A) = locals_A \<and>
   playersToSync upstream_A (players (data conn_A)) [''Alice'', ''Carol'', ''Dave''] =
     [\<lparr>pl_id = -4, pl_name = ''Alice''\<rparr>, \<lparr>pl_id = 9, pl_name = ''Carol''\<rparr>,
      \<lparr>pl_id = -5, pl_name = ''Dave''\<rparr>] \<and>
   players (data (snd (sync upstream_A conn_A))) =
     locals_A @ [\<lparr>pl_id = -4, pl_name = ''Alice''\<rparr>, \<lparr>pl_id = 9, pl_name = ''Carol''\<rparr>,
       \<lparr>pl_id = -5, pl_name = ''Dave''\<rparr>]"
  using players_stage_keeps_existing_rows
    [of upstream_A conn_A "[''Alice'', ''Carol'', ''Dave'']" "[100]"]
  by (simp add: sync_A plan_A) (simp add: conn_A_def empty_db_def plan_A)

section \<open>Synthesized identifiers across runs\<close>

lemma runs_A_C:
  "players (data (runs [upstream_A, upstream_C] conn_A)) =
     locals_A @ [\<lparr>pl_id = -4, pl_name = ''Alice''\<rparr>, \<lparr>pl_id = 9, pl_name = ''Carol''\<rparr>,
       \<lparr>pl_id = -5, pl_name = ''Dave''\<rparr>, \<lparr>pl_id = -6, pl_name = ''Frank''\<rparr>]"
  by code_simp

text \<open>
  C7.  On a target whose player ids are pairwise distinct (the id is a unique key of the
  table), after any sequence of runs, completed or not, the player ids are still
  pairwise distinct, every player row that was there is still there unchanged, and so
  an id once assigned to a name is never found with another name.  Within a run, the
  ids that the Players stage synthesizes are pairwise distinct, negative (so none
  equals a positive id), and not used by any player of the target.
\<close>

theorem synthesized_ids_disjoint:
  assumes "distinct (map pl_id (players (data c)))"
  shows "distinct (map pl_id (players (data (runs ups c)))) \<and>
     (\<exists>added. players (data (runs ups c)) = players (data c) @ added) \<and>
     (\<forall>p \<in> set (players (data c)). \<forall>q \<in> set (players (data (runs ups c))).
        pl_id q = pl_id p \<longrightarrow> q = p) \<and>
     (let names = referencedPlayerNames up eventIds;
          um = upstreamPlayerMap (upstreamPlayers up names);
          ids = localPlayerIdSet (players (data c));
          synthesized = filter (\<lambda>p. case um (pl_name p) of
                                       Some (Some u) \<Rightarrow> 0 < u \<and> u \<in> ids | _ \<Rightarrow> True)
                          (playersToSync up (players (data c)) names)
      in distinct (map pl_id synthesized) \<and>
         (\<forall>p \<in> set synthesized. pl_id p < 0 \<and> pl_id p \<notin> ids))"
proof -
  let ?after = "players (data (runs ups c))"
  have d: "distinct (map pl_id ?after)" using assms by (rule runs_distinct_ids)
  obtain added where ext: "?after = players (data c) @ added" using runs_extends by blast
  have keep: "\<forall>p \<in> set (players (data c)). \<forall>q \<in> set ?after. pl_id q = pl_id p \<longrightarrow> q = p"
  proof (intro ballI impI)
    fix p q
    assume "p \<in> set (players (data c))" and q: "q \<in> set ?after" and eq: "pl_id q = pl_id p"
    then have "p \<in> set ?after" using ext by simp
    with d q eq show "q = p" by (metis distinct_map inj_onD)
  qed
  define lps where "lps = players (data c)"
  define names where "names = referencedPlayerNames up eventIds"
  define synthesized where
    "synthesized = filter (\<lambda>p. case upstreamPlayerMap (upstreamPlayers up names) (pl_name p) of
                             Some (Some u) \<Rightarrow> 0 < u \<and> u \<in> localPlayerIdSet lps | _ \<Rightarrow> True)
      (playersToSync up lps names)"
  have syn: "map pl_id synthesized =
      map (\<lambda>k. minNegativeId lps - 1 - int k) [0..<length synthesized]"
    unfolding synthesized_def by (rule planned_synthesized)
  have "inj_on (\<lambda>k. minNegativeId lps - 1 - int k) (set [0..<length synthesized])"
    by (auto simp: inj_on_def)
  then have sd: "distinct (map pl_id synthesized)"
    unfolding syn by (simp add: distinct_map)
  have sn: "\<forall>p \<in> set synthesized. pl_id p < 0 \<and> pl_id p \<notin> localPlayerIdSet lps"
  proof
    fix p
    assume "p \<in> set synthesized"
    then have "pl_id p \<in> set (map pl_id synthesized)" by simp
    then obtain k where k: "pl_id p = minNegativeId lps - 1 - int k" unfolding syn by auto
    then have lt: "pl_id p < minNegativeId lps" by simp
    then have "pl_id p < 0" using minNegativeId_le0 [of lps] by simp
    moreover have "pl_id p \<notin> localPlayerIdSet lps"
      using minNegativeId_lower [of "pl_id p" lps] lt by auto
    ultimately show "pl_id p < 0 \<and> pl_id p \<notin> localPlayerIdSet lps" by simp
  qed
  show ?thesis
    using d ext keep sd sn
    unfolding Let_def synthesized_def names_def lps_def by blast
qed

text \<open>
  Two runs at the first example, the second against an upstream that has gained an
  event with a player unknown upstream: the second run synthesizes -6, below the -4 and
  -5 of the first run.
\<close>

theorem synthesized_ids_disjoint_witness:
  "distinct (map pl_id (players (data conn_A))) \<and>
   players (data (runs [upstream_A, upstream_C] conn_A)) =
     locals_A @ [\<lparr>pl_id = -4, pl_name = ''Alice''\<rparr>, \<lparr>pl_id = 9, pl_name = ''Carol''\<rparr>,
       \<lparr>pl_id = -5, pl_name = ''Dave''\<rparr>, \<lparr>pl_id = -6, pl_name = ''Frank''\<rparr>] \<and>
   distinct (map pl_id (players (data (runs [upstream_A, upstream_C] conn_A))))"
proof -
  have h: "distinct (map pl_id (players (data conn_A)))"
    by (simp add: conn_A_def empty_db_def locals_A_def)
  from synthesized_ids_disjoint [OF h, of "[upstream_A, upstream_C]" upstream_A "[100]"]
  show ?thesis using h by (simp add: runs_A_C)
qed

section \<open>The incomplete events\<close>

lemma incomplete_iff:
  "incomplete d e \<longleftrightarrow>
     (\<exists>n. ev_players e = Some n \<and> 0 < n) \<and>
     (ev_id e \<notin> st_event_id ` set (standings d) \<or> ev_id e \<notin> mt_event_id ` set (matches d))"
proof -
  have "(\<exists>s \<in> set (standings d). st_event_id s = ev_id e) \<longleftrightarrow>
        ev_id e \<in> st_event_id ` set (standings d)" by force
  moreover have "(\<exists>m \<in> set (matches d). mt_event_id m = ev_id e) \<longleftrightarrow>
        ev_id e \<in> mt_event_id ` set (matches d)" by force
  ultimately show ?thesis
    unfolding incomplete_def by (cases "ev_players e") simp_all
qed

lemma incompleteEvents_sound:
  "x \<in> set (incompleteEvents d) \<Longrightarrow>
   \<exists>e \<in> set (events d). incomplete d e \<and> x = (ev_id e, ev_name e, ev_date e)"
proof -
  assume "x \<in> set (incompleteEvents d)"
  then have "x \<in> set (map (\<lambda>e. (ev_id e, ev_name e, ev_date e)) (filter (incomplete d) (events d)))"
    unfolding incompleteEvents_def by (auto dest: in_set_takeD)
  then show ?thesis by auto
qed

text \<open>A row that \<open>LIMIT\<close> cuts off comes after all the rows kept.\<close>

lemma cut_off_is_later:
  fixes f :: "'a \<Rightarrow> 'b::linorder"
  assumes "x \<in> set xs" and "x \<notin> set (take n (sort_key f xs))"
  shows "length (take n (sort_key f xs)) = n \<and> (\<forall>y \<in> set (take n (sort_key f xs)). f y \<le> f x)"
proof -
  let ?ys = "sort_key f xs"
  have "x \<in> set ?ys" using assms(1) by simp
  then obtain j where j: "j < length ?ys" "?ys ! j = x" by (metis in_set_conv_nth)
  have nj: "n \<le> j"
  proof (rule ccontr)
    assume "\<not> n \<le> j"
    then have "j < length (take n ?ys)" "take n ?ys ! j = x" using j by auto
    then have "x \<in> set (take n ?ys)" by (metis nth_mem)
    with assms(2) show False by simp
  qed
  then have len: "length (take n ?ys) = n" using j(1) by simp
  have srt: "sorted (map f ?ys)" by simp
  have "\<forall>y \<in> set (take n ?ys). f y \<le> f x"
  proof
    fix y
    assume "y \<in> set (take n ?ys)"
    then obtain k where k: "k < length (take n ?ys)" "take n ?ys ! k = y"
      by (auto simp: in_set_conv_nth)
    then have kn: "k < n" "?ys ! k = y" by auto
    have "map f ?ys ! k \<le> map f ?ys ! j"
      using srt kn(1) nj j(1) by (intro sorted_nth_mono) auto
    then show "f y \<le> f x" using kn j nj by simp
  qed
  with len show ?thesis by simp
qed

lemma incompleteEvents_complete:
  assumes "e \<in> set (events d)" and "incomplete d e"
    and "(ev_id e, ev_name e, ev_date e) \<notin> set (incompleteEvents d)"
  shows "length (incompleteEvents d) = 100 \<and>
         (\<forall>(i, n, t) \<in> set (incompleteEvents d).
            ev_date e < t \<or> (t = ev_date e \<and> ev_id e \<le> i))"
proof -
  let ?rows = "remdups (map (\<lambda>e. (ev_id e, ev_name e, ev_date e)) (filter (incomplete d) (events d)))"
  let ?x = "(ev_id e, ev_name e, ev_date e)"
  have "?x \<in> set ?rows" using assms(1,2) by auto
  from cut_off_is_later [OF this, of 100 "\<lambda>(i, n, t). (- t, - i)"] assms(3)
  have "length (incompleteEvents d) = 100" and
    le: "\<forall>y \<in> set (incompleteEvents d). (\<lambda>(i, n, t). (- t, - i)) y \<le> (- ev_date e, - ev_id e)"
    unfolding incompleteEvents_def by auto
  moreover have "\<forall>(i, n, t) \<in> set (incompleteEvents d).
            ev_date e < t \<or> (t = ev_date e \<and> ev_id e \<le> i)"
  proof
    fix y
    assume y: "y \<in> set (incompleteEvents d)"
    obtain i n t where yt: "y = (i, n, t)" by (cases y)
    from le y yt have "(- t, - i) \<le> (- ev_date e, - ev_id e)" by fastforce
    then have "ev_date e < t \<or> (t = ev_date e \<and> ev_id e \<le> i)"
      by (auto simp: less_eq_prod_def)
    then show "case y of (i, n, t) \<Rightarrow> ev_date e < t \<or> (t = ev_date e \<and> ev_id e \<le> i)"
      using yt by simp
  qed
  ultimately show ?thesis by simp
qed

lemma incompleteEvents_by_date:
  "sorted_wrt (\<lambda>(i, n, t) (j, m, u). u \<le> t) (incompleteEvents d)"
proof -
  let ?key = "\<lambda>(i :: int, n :: string, t :: int). (- t, - i)"
  let ?rows = "remdups (map (\<lambda>e. (ev_id e, ev_name e, ev_date e)) (filter (incomplete d) (events d)))"
  have "sorted (map ?key (sort_key ?key ?rows))" by simp
  then have "sorted (take 100 (map ?key (sort_key ?key ?rows)))" by (rule sorted_wrt_take)
  then have "sorted (map ?key (incompleteEvents d))"
    by (simp add: incompleteEvents_def take_map)
  then have "sorted_wrt (\<lambda>a b. ?key a \<le> ?key b) (incompleteEvents d)"
    by (simp add: sorted_map)
  then show ?thesis
    by (rule sorted_wrt_mono_rel [rotated]) (auto simp: less_eq_prod_def)
qed

lemma incompleteEvents_by_recency:
  "sorted_wrt (\<lambda>(i, n, t) (j, m, u). u < t \<or> (u = t \<and> j \<le> i)) (incompleteEvents d)"
proof -
  let ?key = "\<lambda>(i :: int, n :: string, t :: int). (- t, - i)"
  let ?rows = "remdups (map (\<lambda>e. (ev_id e, ev_name e, ev_date e)) (filter (incomplete d) (events d)))"
  have "sorted (map ?key (sort_key ?key ?rows))" by simp
  then have "sorted (take 100 (map ?key (sort_key ?key ?rows)))" by (rule sorted_wrt_take)
  then have "sorted (map ?key (incompleteEvents d))"
    by (simp add: incompleteEvents_def take_map)
  then have "sorted_wrt (\<lambda>a b. ?key a \<le> ?key b) (incompleteEvents d)"
    by (simp add: sorted_map)
  then show ?thesis
    by (rule sorted_wrt_mono_rel [rotated]) (auto simp: less_eq_prod_def)
qed

lemma incomplete_ignores_decks: "incomplete (d\<lparr>decks := ks\<rparr>) = incomplete d"
  by (rule ext) (simp add: incomplete_def)

lemma incompleteEvents_D: "incompleteEvents local_D = [(200, ''Event'', 3)]"
  by code_simp

text \<open>
  C2, as amended.  An event of the target is classified incomplete exactly when its
  player count is present and greater than zero and it has no standing row or no match
  row; the decks play no part.  The ids returned are those of events of the target so
  classified; an event so classified is left out only when 100 rows are returned, all
  of them at least as recent (later date, or same date and an id at least as high); the
  rows come by date descending, rows of one date by id descending, and at most 100 of
  them.
\<close>

theorem getIncompleteEventIds_spec:
  "(incomplete d e \<longleftrightarrow>
      (\<exists>n. ev_players e = Some n \<and> 0 < n) \<and>
      (ev_id e \<notin> st_event_id ` set (standings d) \<or> ev_id e \<notin> mt_event_id ` set (matches d))) \<and>
   getIncompleteEventIds d = map fst (incompleteEvents d) \<and>
   (\<forall>x \<in> set (incompleteEvents d).
      \<exists>e \<in> set (events d). incomplete d e \<and> x = (ev_id e, ev_name e, ev_date e)) \<and>
   (\<forall>e \<in> set (events d).
      incomplete d e \<and> (ev_id e, ev_name e, ev_date e) \<notin> set (incompleteEvents d) \<longrightarrow>
      length (incompleteEvents d) = 100 \<and>
      (\<forall>(i, n, t) \<in> set (incompleteEvents d).
         ev_date e < t \<or> (t = ev_date e \<and> ev_id e \<le> i))) \<and>
   getIncompleteEventIds (d\<lparr>decks := ks\<rparr>) = getIncompleteEventIds d \<and>
   sorted_wrt (\<lambda>(i, n, t) (j, m, u). u < t \<or> (u = t \<and> j \<le> i)) (incompleteEvents d) \<and>
   length (getIncompleteEventIds d) \<le> 100"
proof (intro conjI)
  show "incomplete d e \<longleftrightarrow>
      (\<exists>n. ev_players e = Some n \<and> 0 < n) \<and>
      (ev_id e \<notin> st_event_id ` set (standings d) \<or> ev_id e \<notin> mt_event_id ` set (matches d))"
    by (rule incomplete_iff)
  show "getIncompleteEventIds d = map fst (incompleteEvents d)"
    by (simp add: getIncompleteEventIds_def)
  show "\<forall>x \<in> set (incompleteEvents d).
      \<exists>e \<in> set (events d). incomplete d e \<and> x = (ev_id e, ev_name e, ev_date e)"
    using incompleteEvents_sound by blast
  show "\<forall>e \<in> set (events d).
      incomplete d e \<and> (ev_id e, ev_name e, ev_date e) \<notin> set (incompleteEvents d) \<longrightarrow>
      length (incompleteEvents d) = 100 \<and>
      (\<forall>(i, n, t) \<in> set (incompleteEvents d).
         ev_date e < t \<or> (t = ev_date e \<and> ev_id e \<le> i))"
    using incompleteEvents_complete by blast
  show "getIncompleteEventIds (d\<lparr>decks := ks\<rparr>) = getIncompleteEventIds d"
    by (simp add: getIncompleteEventIds_def incompleteEvents_def incomplete_ignores_decks)
  show "sorted_wrt (\<lambda>(i, n, t) (j, m, u). u < t \<or> (u = t \<and> j \<le> i)) (incompleteEvents d)"
    by (rule incompleteEvents_by_recency)
  show "length (getIncompleteEventIds d) \<le> 100"
    by (simp add: getIncompleteEventIds_def incompleteEvents_def)
qed

text \<open>
  On the example target, event 200 (8 players, a match, no standing) is incomplete;
  event 201 has both kinds of rows and event 202 has a null player count.
\<close>

theorem getIncompleteEventIds_spec_witness:
  "incomplete local_D (mk_event 200 3 (Some 8)) \<and>
   mk_event 200 3 (Some 8) \<in> set (events local_D) \<and>
   \<not> incomplete local_D (mk_event 202 5 None) \<and>
   incompleteEvents local_D = [(200, ''Event'', 3)] \<and>
   getIncompleteEventIds local_D = [200]"
  using getIncompleteEventIds_spec [of local_D "mk_event 200 3 (Some 8)" "[]"]
  by (simp add: incompleteEvents_D)
     (simp add: local_D_def empty_db_def mk_event_def mk_standing_def mk_match_def incomplete_def)

text \<open>
  The claim as written fails for a player count that is not zero and not positive: the
  only event of this target has the player count -1 and neither standings nor matches,
  and it is not returned.
\<close>

theorem getIncompleteEventIds_nonzero_counterexample:
  "events local_E = [mk_event 300 1 (Some (- 1))] \<and>
   ev_players (mk_event 300 1 (Some (- 1))) = Some (- 1) \<and>
   (- 1 :: int) \<noteq> 0 \<and>
   standings local_E = [] \<and> matches local_E = [] \<and>
   getIncompleteEventIds local_E = []"
  by (simp add: local_E_def empty_db_def mk_event_def getIncompleteEventIds_def
      incompleteEvents_def incomplete_def)

section \<open>The upsert statement\<close>

lemma put_replace:
  "put key (\<lambda>x r. r) r tbl =
    (if key r \<in> key ` set tbl then map (\<lambda>x. if key x = key r then r else x) tbl else tbl @ [r])"
  by (simp add: put_def)

lemma put_keys:
  "map key (put key (\<lambda>x r. r) r tbl) =
    (if key r \<in> key ` set tbl then map key tbl else map key tbl @ [key r])"
  unfolding put_replace by (auto intro!: map_cong)

lemma put_key_set:
  "key ` set (put key (\<lambda>x r. r) r tbl) = insert (key r) (key ` set tbl)"
proof -
  have "key ` set (put key (\<lambda>x r. r) r tbl) = set (map key (put key (\<lambda>x r. r) r tbl))" by simp
  also have "\<dots> = insert (key r) (key ` set tbl)"
    unfolding put_keys by auto
  finally show ?thesis .
qed

lemma put_in:
  "r \<in> set (put key (\<lambda>x r. r) r tbl)"
  unfolding put_replace by auto

lemma put_other:
  "x \<in> set tbl \<Longrightarrow> key x \<noteq> key r \<Longrightarrow> x \<in> set (put key (\<lambda>x r. r) r tbl)"
  unfolding put_replace by auto

lemma put_sub:
  "set (put key (\<lambda>x r. r) r tbl) \<subseteq> insert r (set tbl)"
  unfolding put_replace by auto

lemma put_present:
  assumes "distinct (map key tbl)" and "r \<in> set tbl"
  shows "put key (\<lambda>x r. r) r tbl = tbl"
proof -
  have "map (\<lambda>x. if key x = key r then r else x) tbl = map (\<lambda>x. x) tbl"
  proof (rule map_cong [OF refl])
    fix x assume "x \<in> set tbl"
    then show "(if key x = key r then r else x) = x"
      using assms by (auto simp: distinct_map dest: inj_onD)
  qed
  then show ?thesis
    unfolding put_replace using assms(2) by simp
qed

lemma fold_put_key_set:
  "key ` set (fold (put key (\<lambda>x r. r)) rows tbl) = key ` set tbl \<union> key ` set rows"
  by (induction rows arbitrary: tbl) (auto simp: put_key_set)

lemma fold_put_distinct:
  "distinct (map key tbl) \<Longrightarrow> distinct (map key (fold (put key (\<lambda>x r. r)) rows tbl))"
proof (induction rows arbitrary: tbl)
  case Nil
  then show ?case by simp
next
  case (Cons r rows)
  have "distinct (map key (put key (\<lambda>x r. r) r tbl))"
    unfolding put_keys using Cons.prems by auto
  from Cons.IH [OF this] show ?case by simp
qed

lemma fold_put_other:
  "x \<in> set tbl \<Longrightarrow> key x \<notin> key ` set rows \<Longrightarrow> x \<in> set (fold (put key (\<lambda>x r. r)) rows tbl)"
proof (induction rows arbitrary: tbl)
  case Nil
  then show ?case by simp
next
  case (Cons r rows)
  have "x \<in> set (put key (\<lambda>x r. r) r tbl)"
    using Cons.prems by (intro put_other) auto
  from Cons.IH [OF this] Cons.prems(2) show ?case by simp
qed

lemma fold_put_sub:
  "set (fold (put key (\<lambda>x r. r)) rows tbl) \<subseteq> set tbl \<union> set rows"
proof (induction rows arbitrary: tbl)
  case Nil
  then show ?case by simp
next
  case (Cons r rows)
  show ?case using Cons.IH [of "put key (\<lambda>x r. r) r tbl"] put_sub [of key r tbl]
    by auto
qed

lemma fold_put_in:
  "distinct (map key rows) \<Longrightarrow> set rows \<subseteq> set (fold (put key (\<lambda>x r. r)) rows tbl)"
proof (induction rows arbitrary: tbl)
  case Nil
  then show ?case by simp
next
  case (Cons r rows)
  have "r \<in> set (put key (\<lambda>x r. r) r tbl)" by (rule put_in)
  moreover have "key r \<notin> key ` set rows" using Cons.prems by auto
  ultimately have "r \<in> set (fold (put key (\<lambda>x r. r)) rows (put key (\<lambda>x r. r) r tbl))"
    by (rule fold_put_other)
  moreover have "set rows \<subseteq> set (fold (put key (\<lambda>x r. r)) rows (put key (\<lambda>x r. r) r tbl))"
    using Cons.IH Cons.prems by simp
  ultimately show ?case by simp
qed

lemma fold_put_noop:
  assumes "distinct (map key tbl)" and "set rows \<subseteq> set tbl"
  shows "fold (put key (\<lambda>x r. r)) rows tbl = tbl"
  using assms(2)
proof (induction rows)
  case Nil
  then show ?case by simp
next
  case (Cons r rows)
  have "put key (\<lambda>x r. r) r tbl = tbl"
    using Cons.prems by (intro put_present [OF assms(1)]) auto
  then show ?case using Cons by simp
qed

text \<open>Writing the same rows again changes nothing.\<close>

lemma overwrite_key:
  "key (fold (\<lambda>r x. if key x = key r then r else x) rows x) = key x"
  by (induction rows arbitrary: x) auto

lemma fold_put_overwrite:
  "key ` set rows \<subseteq> key ` set tbl \<Longrightarrow>
    fold (put key (\<lambda>x r. r)) rows tbl =
      map (\<lambda>x. fold (\<lambda>r x. if key x = key r then r else x) rows x) tbl"
proof (induction rows arbitrary: tbl)
  case Nil
  then show ?case by simp
next
  case (Cons r rows)
  have p: "put key (\<lambda>x r. r) r tbl = map (\<lambda>x. if key x = key r then r else x) tbl"
    unfolding put_replace using Cons.prems by auto
  have "key ` set rows \<subseteq> key ` set (put key (\<lambda>x r. r) r tbl)"
    unfolding put_key_set using Cons.prems by auto
  from Cons.IH [OF this] show ?case by (simp add: p comp_def)
qed

lemma overwrite_fixed:
  "x \<in> set (fold (put key (\<lambda>x r. r)) rows tbl) \<Longrightarrow>
    fold (\<lambda>r x. if key x = key r then r else x) rows x = x"
proof (induction rows arbitrary: x rule: rev_induct)
  case Nil
  then show ?case by simp
next
  case (snoc r rows)
  let ?T = "fold (put key (\<lambda>x r. r)) rows tbl"
  from snoc.prems have x: "x \<in> set (put key (\<lambda>x r. r) r ?T)" by simp
  show ?case
  proof (cases "key x = key r")
    case True
    have "x = r"
    proof (cases "key r \<in> key ` set ?T")
      case present: True
      with x True show ?thesis by (auto simp: put_replace [of key r ?T])
    next
      case False
      with x have "x \<in> set ?T \<or> x = r" by (auto simp: put_replace [of key r ?T])
      moreover have "x \<notin> set ?T" using False True by (metis imageI)
      ultimately show ?thesis by simp
    qed
    then show ?thesis by (simp add: overwrite_key)
  next
    case False
    then have "x \<in> set ?T"
      using x by (auto simp: put_replace [of key r ?T] split: if_splits)
    from snoc.IH [OF this] False show ?thesis by simp
  qed
qed

lemma fold_put_idem:
  "fold (put key (\<lambda>x r. r)) rows (fold (put key (\<lambda>x r. r)) rows tbl) = fold (put key (\<lambda>x r. r)) rows tbl"
proof -
  let ?T = "fold (put key (\<lambda>x r. r)) rows tbl"
  have "key ` set rows \<subseteq> key ` set ?T"
    unfolding fold_put_key_set by auto
  from fold_put_overwrite [OF this]
  have "fold (put key (\<lambda>x r. r)) rows ?T =
      map (\<lambda>x. fold (\<lambda>r x. if key x = key r then r else x) rows x) ?T" .
  also have "\<dots> = map (\<lambda>x. x) ?T"
    by (rule map_cong [OF refl]) (rule overwrite_fixed)
  finally show ?thesis by simp
qed


lemma put_excluded:
  assumes "\<And>x r. key x = key r \<Longrightarrow> excl x r = r"
  shows "put key excl = put key (\<lambda>x r. r)"
proof (intro ext)
  fix r tbl
  have "map (\<lambda>x. if key x = key r then excl x r else x) tbl =
        map (\<lambda>x. if key x = key r then r else x) tbl"
    by (rule map_cong [OF refl]) (simp add: assms)
  then show "put key excl r tbl = put key (\<lambda>x r. r) r tbl" by (simp add: put_def)
qed

lemma standing_excluded_eq: "standing_key x = standing_key r \<Longrightarrow> standing_excluded x r = r"
  by (cases x, cases r) (simp add: standing_excluded_def standing_key_def)

lemma match_excluded_eq: "match_key x = match_key r \<Longrightarrow> match_excluded x r = r"
  by (cases x, cases r) (simp add: match_excluded_def match_key_def)

lemma deck_excluded_eq: "dk_id x = dk_id r \<Longrightarrow> deck_excluded x r = r"
  by (cases x, cases r) (simp add: deck_excluded_def)

lemma archetype_excluded_eq: "ar_id x = ar_id r \<Longrightarrow> archetype_excluded x r = r"
  by (cases x, cases r) (simp add: archetype_excluded_def)

lemma event_excluded_eq: "ev_id x = ev_id r \<Longrightarrow> event_excluded x r = r"
  by (cases x, cases r) (simp add: event_excluded_def)

section \<open>The batching loop\<close>

lemma fold_slice:
  "fold f (drop i rows) t = fold f (drop (i + n) rows) (fold f (take n (drop i rows)) t)"
proof -
  have "drop i rows = take n (drop i rows) @ drop (i + n) rows"
    by (metis add.commute append_take_drop_id drop_drop)
  then have "fold f (drop i rows) t = fold f (take n (drop i rows) @ drop (i + n) rows) t"
    by (rule arg_cong [where f = "\<lambda>xs. fold f xs t"])
  then show ?thesis by (simp only: fold_append comp_def)
qed

lemma slice_distinct:
  "distinct (map key rows) \<Longrightarrow> distinct (map key (take n (drop i rows)))"
  by (metis distinct_drop distinct_take drop_map take_map)

text \<open>The batches that the loop hands to its statement, recorded in order.\<close>

lemma batch_loop_records:
  "0 < n \<Longrightarrow>
   \<exists>bs. batch_loop n (\<lambda>b s. Inr (s @ [b])) rows i acc = (None, acc @ bs) \<and>
        concat bs = drop i rows \<and> (\<forall>b \<in> set bs. b \<noteq> [] \<and> length b \<le> n)"
proof (induction "length rows - i" arbitrary: i acc rule: less_induct)
  case less
  show ?case
  proof (cases "i < length rows")
    case False
    then have "batch_loop n (\<lambda>b s. Inr (s @ [b])) rows i acc = (None, acc @ [])"
      by (subst batch_loop.simps) simp
    moreover have "concat [] = drop i rows" using False by simp
    ultimately show ?thesis by (metis empty_iff list.set(1))
  next
    case True
    let ?b = "take n (drop i rows)"
    have "length rows - (i + n) < length rows - i" using True less.prems by simp
    from less.hyps [OF this less.prems, of "acc @ [?b]"] obtain bs where
      bs: "batch_loop n (\<lambda>b s. Inr (s @ [b])) rows (i + n) (acc @ [?b]) = (None, (acc @ [?b]) @ bs)"
          "concat bs = drop (i + n) rows" "\<forall>b \<in> set bs. b \<noteq> [] \<and> length b \<le> n" by blast
    have 1: "batch_loop n (\<lambda>b s. Inr (s @ [b])) rows i acc = (None, acc @ (?b # bs))"
      using True less.prems bs(1) by (subst batch_loop.simps) simp
    have "?b @ drop (i + n) rows = drop i rows"
      by (metis add.commute append_take_drop_id drop_drop)
    then have 2: "concat (?b # bs) = drop i rows" using bs(2) by simp
    have 3: "\<forall>b \<in> set (?b # bs). b \<noteq> [] \<and> length b \<le> n"
      using bs(3) True less.prems by auto
    from 1 2 3 show ?thesis by blast
  qed
qed

lemma concat_length_bound:
  "(\<forall>b \<in> set bs. length b \<le> n) \<Longrightarrow> length (concat bs) \<le> n * length bs"
  by (induction bs) auto

text \<open>
  The loop over a statement that writes one table with the upsert: \<open>tab\<close> reads that
  table, \<open>okc\<close> the references a row must keep, \<open>rest\<close> everything else.
\<close>

lemma batch_loop_unsplit:
  assumes a: "\<And>b c. distinct (map key b) \<Longrightarrow> list_all (okc c) b \<Longrightarrow>
        \<exists>c'. stmt b c = Inr c' \<and> tab c' = fold (put key (\<lambda>x r. r)) b (tab c) \<and>
             okc c' = okc c \<and> rest c' = rest c"
    and "0 < n" and "distinct (map key rows)" and "list_all (okc c) rows"
  shows "\<exists>c1. batch_loop n stmt rows i c = (None, c1) \<and>
           tab c1 = fold (put key (\<lambda>x r. r)) (drop i rows) (tab c) \<and>
           okc c1 = okc c \<and> rest c1 = rest c"
  using assms(4)
proof (induction "length rows - i" arbitrary: i c rule: less_induct)
  case less
  show ?case
  proof (cases "i < length rows")
    case False
    then have "batch_loop n stmt rows i c = (None, c)" by (subst batch_loop.simps) simp
    then show ?thesis using False by simp
  next
    case True
    let ?b = "take n (drop i rows)"
    have d: "distinct (map key ?b)" using assms(3) by (rule slice_distinct)
    have "set ?b \<subseteq> set rows" by (meson in_set_dropD in_set_takeD subsetI)
    then have o: "list_all (okc c) ?b" using less.prems by (auto simp: list_all_iff)
    from a [OF d o] obtain c' where
      c': "stmt ?b c = Inr c'" "tab c' = fold (put key (\<lambda>x r. r)) ?b (tab c)"
          "okc c' = okc c" "rest c' = rest c" by blast
    have "length rows - (i + n) < length rows - i" using True assms(2) by simp
    moreover have "list_all (okc c') rows" using less.prems c'(3) by simp
    ultimately obtain c1 where
      c1: "batch_loop n stmt rows (i + n) c' = (None, c1)"
          "tab c1 = fold (put key (\<lambda>x r. r)) (drop (i + n) rows) (tab c')"
          "okc c1 = okc c'" "rest c1 = rest c'"
      using less.hyps by blast
    have 1: "batch_loop n stmt rows i c = (None, c1)"
      using True assms(2) c'(1) c1(1) by (subst batch_loop.simps) simp
    have "fold (put key (\<lambda>x r. r)) (drop i rows) (tab c) = tab c1"
      using c1(2) c'(2) by (subst fold_slice [where n = n]) simp
    with 1 c1(3,4) c'(3,4) show ?thesis by simp
  qed
qed

lemma batch_loop_again:
  assumes a: "\<And>b c. distinct (map key b) \<Longrightarrow> list_all (okc c) b \<Longrightarrow>
        \<exists>c'. stmt b c = Inr c' \<and> tab c' = fold (put key (\<lambda>x r. r)) b (tab c) \<and>
             okc c' = okc c \<and> rest c' = rest c"
    and b: "\<And>b c c'. stmt b c = Inr c' \<Longrightarrow> distinct (map key b) \<and> list_all (okc c) b"
    and "0 < n"
  shows "batch_loop n stmt rows i c = (None, c1) \<Longrightarrow> okc d = okc c \<Longrightarrow>
         \<exists>d1. batch_loop n stmt rows i d = (None, d1) \<and>
           tab d1 = fold (put key (\<lambda>x r. r)) (drop i rows) (tab d) \<and>
           okc d1 = okc d \<and> rest d1 = rest d"
proof (induction "length rows - i" arbitrary: i c d rule: less_induct)
  case less
  show ?case
  proof (cases "i < length rows")
    case False
    then have "batch_loop n stmt rows i d = (None, d)" by (subst batch_loop.simps) simp
    then show ?thesis using False by simp
  next
    case True
    let ?b = "take n (drop i rows)"
    from less.prems(1) True assms(3) obtain c' where
      c': "stmt ?b c = Inr c'" "batch_loop n stmt rows (i + n) c' = (None, c1)"
      by (subst (asm) batch_loop.simps) (auto split: sum.splits)
    from b [OF c'(1)] have ok: "distinct (map key ?b)" "list_all (okc c) ?b" by auto
    from a [OF ok] c'(1) have okc': "okc c' = okc c" by auto
    from ok less.prems(2) have "list_all (okc d) ?b" by simp
    from a [OF ok(1) this] obtain d' where
      d': "stmt ?b d = Inr d'" "tab d' = fold (put key (\<lambda>x r. r)) ?b (tab d)"
          "okc d' = okc d" "rest d' = rest d" by blast
    have "length rows - (i + n) < length rows - i" using True assms(3) by simp
    moreover have "okc d' = okc c'" using d'(3) okc' less.prems(2) by simp
    ultimately obtain d1 where
      d1: "batch_loop n stmt rows (i + n) d' = (None, d1)"
          "tab d1 = fold (put key (\<lambda>x r. r)) (drop (i + n) rows) (tab d')"
          "okc d1 = okc d'" "rest d1 = rest d'"
      using less.hyps c'(2) by blast
    have 1: "batch_loop n stmt rows i d = (None, d1)"
      using True assms(3) d'(1) d1(1) by (subst batch_loop.simps) simp
    have "fold (put key (\<lambda>x r. r)) (drop i rows) (tab d) = tab d1"
      using d1(2) d'(2) by (subst fold_slice [where n = n]) simp
    with 1 d1(3,4) d'(3,4) show ?thesis by simp
  qed
qed


lemma batched_unsplit:
  assumes a: "\<And>b c. distinct (map key b) \<Longrightarrow> list_all (okc c) b \<Longrightarrow>
        \<exists>c'. stmt b c = Inr c' \<and> tab c' = fold (put key (\<lambda>x r. r)) b (tab c) \<and>
             okc c' = okc c \<and> rest c' = rest c"
    and b: "\<And>b c c'. stmt b c = Inr c' \<Longrightarrow> distinct (map key b) \<and> list_all (okc c) b"
    and "0 < n" and "stmt rows c = Inr c1"
  shows "\<exists>c2. batched n stmt rows c = (Inr (length rows), c2) \<and>
           tab c2 = tab c1 \<and> rest c2 = rest c1"
proof -
  from b [OF assms(4)] have ok: "distinct (map key rows)" "list_all (okc c) rows" by auto
  from a [OF ok] assms(4) have c1: "tab c1 = fold (put key (\<lambda>x r. r)) rows (tab c)"
    "rest c1 = rest c" by auto
  have "\<exists>c2. batch_loop n stmt rows 0 c = (None, c2) \<and>
           tab c2 = fold (put key (\<lambda>x r. r)) (drop 0 rows) (tab c) \<and>
           okc c2 = okc c \<and> rest c2 = rest c"
  proof (rule batch_loop_unsplit [where key = key])
    show "\<And>b c. distinct (map key b) \<Longrightarrow> list_all (okc c) b \<Longrightarrow>
        \<exists>c'. stmt b c = Inr c' \<and> tab c' = fold (put key (\<lambda>x r. r)) b (tab c) \<and>
             okc c' = okc c \<and> rest c' = rest c" by (rule a)
  qed (use assms(3) ok in simp_all)
  then obtain c2 where "batch_loop n stmt rows 0 c = (None, c2)"
    "tab c2 = fold (put key (\<lambda>x r. r)) rows (tab c)" "rest c2 = rest c" by auto
  with c1 show ?thesis by (simp add: batched_def)
qed

lemma batched_again:
  assumes a: "\<And>b c. distinct (map key b) \<Longrightarrow> list_all (okc c) b \<Longrightarrow>
        \<exists>c'. stmt b c = Inr c' \<and> tab c' = fold (put key (\<lambda>x r. r)) b (tab c) \<and>
             okc c' = okc c \<and> rest c' = rest c"
    and b: "\<And>b c c'. stmt b c = Inr c' \<Longrightarrow> distinct (map key b) \<and> list_all (okc c) b"
    and "0 < n" and "batched n stmt rows c = (Inr m, c1)"
  shows "tab c1 = fold (put key (\<lambda>x r. r)) rows (tab c) \<and> rest c1 = rest c \<and>
         okc c1 = okc c \<and>
         (\<exists>c2. batched n stmt rows c1 = (Inr m, c2) \<and> tab c2 = tab c1 \<and> rest c2 = rest c1)"
proof -
  from assms(4) have l: "batch_loop n stmt rows 0 c = (None, c1)" and m: "m = length rows"
    by (auto simp: batched_def split: prod.splits option.splits)
  have again: "\<exists>d1. batch_loop n stmt rows 0 d = (None, d1) \<and>
           tab d1 = fold (put key (\<lambda>x r. r)) (drop 0 rows) (tab d) \<and>
           okc d1 = okc d \<and> rest d1 = rest d" if "okc d = okc c" for d
  proof (rule batch_loop_again [where key = key and c = c])
    show "\<And>b c. distinct (map key b) \<Longrightarrow> list_all (okc c) b \<Longrightarrow>
        \<exists>c'. stmt b c = Inr c' \<and> tab c' = fold (put key (\<lambda>x r. r)) b (tab c) \<and>
             okc c' = okc c \<and> rest c' = rest c" by (rule a)
    show "\<And>b c c'. stmt b c = Inr c' \<Longrightarrow> distinct (map key b) \<and> list_all (okc c) b"
      by (rule b)
  qed (use assms(3) l that in simp_all)
  from again [of c] l
  have c1: "tab c1 = fold (put key (\<lambda>x r. r)) rows (tab c)" "okc c1 = okc c" "rest c1 = rest c"
    by auto
  from again [OF c1(2)]
  obtain c2 where c2: "batch_loop n stmt rows 0 c1 = (None, c2)"
    "tab c2 = fold (put key (\<lambda>x r. r)) rows (tab c1)" "rest c2 = rest c1" by auto
  have "tab c2 = tab c1" unfolding c2(2) c1(1) by (rule fold_put_idem)
  with c1 c2 m show ?thesis by (simp add: batched_def)
qed

text \<open>The four batched statements as writers of one table.\<close>

lemma standing_fk_frame: "standing_fk (d\<lparr>standings := t\<rparr>) = standing_fk d"
  by (rule ext) (simp add: standing_fk_def event_ids_def player_names_def)

lemma match_fk_frame: "match_fk (d\<lparr>matches := t\<rparr>) = match_fk d"
  by (rule ext) (simp add: match_fk_def event_ids_def player_names_def)

lemma deck_fk_frame: "deck_fk (d\<lparr>decks := t\<rparr>) = deck_fk d"
  by (rule ext) (simp add: deck_fk_def event_ids_def player_names_def)

lemma archetype_fk_frame: "archetype_fk (d\<lparr>archetypes := t\<rparr>) = archetype_fk d"
  by (rule ext) (simp add: archetype_fk_def deck_ids_def split: option.splits)

lemma upsert_standings_writes:
  "distinct (map standing_key b) \<Longrightarrow> list_all (standing_fk (data c)) b \<Longrightarrow>
   \<exists>c'. upsert_standings b c = Inr c' \<and>
     standings (data c') = fold (put standing_key (\<lambda>x r. r)) b (standings (data c)) \<and>
     standing_fk (data c') = standing_fk (data c) \<and>
     (data c')\<lparr>standings := []\<rparr> = (data c)\<lparr>standings := []\<rparr>"
  by (simp add: upsert_standings_def on_conflict_do_update_def commit_def standing_fk_frame
      put_excluded [of standing_key standing_excluded, OF standing_excluded_eq])

lemma upsert_standings_checked:
  "upsert_standings b c = Inr c' \<Longrightarrow>
   distinct (map standing_key b) \<and> list_all (standing_fk (data c)) b"
  by (auto simp: upsert_standings_def on_conflict_do_update_def split: sum.splits if_splits)

lemma upsert_matches_writes:
  "distinct (map match_key b) \<Longrightarrow> list_all (match_fk (data c)) b \<Longrightarrow>
   \<exists>c'. upsert_matches b c = Inr c' \<and>
     matches (data c') = fold (put match_key (\<lambda>x r. r)) b (matches (data c)) \<and>
     match_fk (data c') = match_fk (data c) \<and>
     (data c')\<lparr>matches := []\<rparr> = (data c)\<lparr>matches := []\<rparr>"
  by (simp add: upsert_matches_def on_conflict_do_update_def commit_def match_fk_frame
      put_excluded [of match_key match_excluded, OF match_excluded_eq])

lemma upsert_matches_checked:
  "upsert_matches b c = Inr c' \<Longrightarrow>
   distinct (map match_key b) \<and> list_all (match_fk (data c)) b"
  by (auto simp: upsert_matches_def on_conflict_do_update_def split: sum.splits if_splits)

lemma upsert_decks_writes:
  "distinct (map dk_id b) \<Longrightarrow> list_all (deck_fk (data c)) b \<Longrightarrow>
   \<exists>c'. upsert_decks b c = Inr c' \<and>
     decks (data c') = fold (put dk_id (\<lambda>x r. r)) b (decks (data c)) \<and>
     deck_fk (data c') = deck_fk (data c) \<and>
     (data c')\<lparr>decks := []\<rparr> = (data c)\<lparr>decks := []\<rparr>"
  by (simp add: upsert_decks_def on_conflict_do_update_def commit_def deck_fk_frame
      put_excluded [of dk_id deck_excluded, OF deck_excluded_eq])

lemma upsert_decks_checked:
  "upsert_decks b c = Inr c' \<Longrightarrow> distinct (map dk_id b) \<and> list_all (deck_fk (data c)) b"
  by (auto simp: upsert_decks_def on_conflict_do_update_def split: sum.splits if_splits)

lemma upsert_archetypes_writes:
  "distinct (map ar_id b) \<Longrightarrow> list_all (archetype_fk (data c)) b \<Longrightarrow>
   \<exists>c'. upsert_archetypes b c = Inr c' \<and>
     archetypes (data c') = fold (put ar_id (\<lambda>x r. r)) b (archetypes (data c)) \<and>
     archetype_fk (data c') = archetype_fk (data c) \<and>
     (data c')\<lparr>archetypes := []\<rparr> = (data c)\<lparr>archetypes := []\<rparr>"
  by (simp add: upsert_archetypes_def on_conflict_do_update_def commit_def archetype_fk_frame
      put_excluded [of ar_id archetype_excluded, OF archetype_excluded_eq])

lemma upsert_archetypes_checked:
  "upsert_archetypes b c = Inr c' \<Longrightarrow>
   distinct (map ar_id b) \<and> list_all (archetype_fk (data c)) b"
  by (auto simp: upsert_archetypes_def on_conflict_do_update_def split: sum.splits if_splits)

lemma standings_ext:
  "standings d' = t \<Longrightarrow> d'\<lparr>standings := []\<rparr> = d\<lparr>standings := []\<rparr> \<Longrightarrow> d' = d\<lparr>standings := t\<rparr>"
  by (cases d, cases d') simp

lemma matches_ext:
  "matches d' = t \<Longrightarrow> d'\<lparr>matches := []\<rparr> = d\<lparr>matches := []\<rparr> \<Longrightarrow> d' = d\<lparr>matches := t\<rparr>"
  by (cases d, cases d') simp

lemma decks_ext:
  "decks d' = t \<Longrightarrow> d'\<lparr>decks := []\<rparr> = d\<lparr>decks := []\<rparr> \<Longrightarrow> d' = d\<lparr>decks := t\<rparr>"
  by (cases d, cases d') simp

lemma archetypes_ext:
  "archetypes d' = t \<Longrightarrow> d'\<lparr>archetypes := []\<rparr> = d\<lparr>archetypes := []\<rparr> \<Longrightarrow>
   d' = d\<lparr>archetypes := t\<rparr>"
  by (cases d, cases d') simp

lemma batched_standings_unsplit:
  assumes "0 < n" and "upsert_standings rows c = Inr c1"
  shows "\<exists>c2. batched n upsert_standings rows c = (Inr (length rows), c2) \<and> data c2 = data c1"
proof -
  have "\<exists>c2. batched n upsert_standings rows c = (Inr (length rows), c2) \<and>
    standings (data c2) = standings (data c1) \<and>
    (data c2)\<lparr>standings := []\<rparr> = (data c1)\<lparr>standings := []\<rparr>"
    by (rule batched_unsplit [where key = standing_key and okc = "\<lambda>c. standing_fk (data c)",
          OF upsert_standings_writes upsert_standings_checked assms])
  then obtain c2 where c2: "batched n upsert_standings rows c = (Inr (length rows), c2)"
    "standings (data c2) = standings (data c1)"
    "(data c2)\<lparr>standings := []\<rparr> = (data c1)\<lparr>standings := []\<rparr>" by blast
  from standings_ext [OF c2(2,3)] have "data c2 = data c1" by simp
  with c2(1) show ?thesis by blast
qed

lemma batched_standings_again:
  assumes "0 < n" and "batched n upsert_standings rows c = (Inr m, c1)"
  shows "data c1 = (data c)\<lparr>standings := fold (put standing_key (\<lambda>x r. r)) rows (standings (data c))\<rparr> \<and>
         (\<exists>c2. batched n upsert_standings rows c1 = (Inr m, c2) \<and> data c2 = data c1)"
proof -
  have "standings (data c1) = fold (put standing_key (\<lambda>x r. r)) rows (standings (data c)) \<and>
     (data c1)\<lparr>standings := []\<rparr> = (data c)\<lparr>standings := []\<rparr> \<and>
     standing_fk (data c1) = standing_fk (data c) \<and>
     (\<exists>c2. batched n upsert_standings rows c1 = (Inr m, c2) \<and>
        standings (data c2) = standings (data c1) \<and>
        (data c2)\<lparr>standings := []\<rparr> = (data c1)\<lparr>standings := []\<rparr>)"
    by (rule batched_again [where key = standing_key and okc = "\<lambda>c. standing_fk (data c)",
          OF upsert_standings_writes upsert_standings_checked assms])
  then obtain c2 where
    c1: "standings (data c1) = fold (put standing_key (\<lambda>x r. r)) rows (standings (data c))"
        "(data c1)\<lparr>standings := []\<rparr> = (data c)\<lparr>standings := []\<rparr>" and
    c2: "batched n upsert_standings rows c1 = (Inr m, c2)"
        "standings (data c2) = standings (data c1)"
        "(data c2)\<lparr>standings := []\<rparr> = (data c1)\<lparr>standings := []\<rparr>" by blast
  from standings_ext [OF c2(2,3)] have "data c2 = data c1" by simp
  with c2(1) standings_ext [OF c1] show ?thesis by blast
qed

lemma batched_matches_unsplit:
  assumes "0 < n" and "upsert_matches rows c = Inr c1"
  shows "\<exists>c2. batched n upsert_matches rows c = (Inr (length rows), c2) \<and> data c2 = data c1"
proof -
  have "\<exists>c2. batched n upsert_matches rows c = (Inr (length rows), c2) \<and>
    matches (data c2) = matches (data c1) \<and>
    (data c2)\<lparr>matches := []\<rparr> = (data c1)\<lparr>matches := []\<rparr>"
    by (rule batched_unsplit [where key = match_key and okc = "\<lambda>c. match_fk (data c)",
          OF upsert_matches_writes upsert_matches_checked assms])
  then obtain c2 where c2: "batched n upsert_matches rows c = (Inr (length rows), c2)"
    "matches (data c2) = matches (data c1)"
    "(data c2)\<lparr>matches := []\<rparr> = (data c1)\<lparr>matches := []\<rparr>" by blast
  from matches_ext [OF c2(2,3)] have "data c2 = data c1" by simp
  with c2(1) show ?thesis by blast
qed

lemma batched_matches_again:
  assumes "0 < n" and "batched n upsert_matches rows c = (Inr m, c1)"
  shows "data c1 = (data c)\<lparr>matches := fold (put match_key (\<lambda>x r. r)) rows (matches (data c))\<rparr> \<and>
         (\<exists>c2. batched n upsert_matches rows c1 = (Inr m, c2) \<and> data c2 = data c1)"
proof -
  have "matches (data c1) = fold (put match_key (\<lambda>x r. r)) rows (matches (data c)) \<and>
     (data c1)\<lparr>matches := []\<rparr> = (data c)\<lparr>matches := []\<rparr> \<and>
     match_fk (data c1) = match_fk (data c) \<and>
     (\<exists>c2. batched n upsert_matches rows c1 = (Inr m, c2) \<and>
        matches (data c2) = matches (data c1) \<and>
        (data c2)\<lparr>matches := []\<rparr> = (data c1)\<lparr>matches := []\<rparr>)"
    by (rule batched_again [where key = match_key and okc = "\<lambda>c. match_fk (data c)",
          OF upsert_matches_writes upsert_matches_checked assms])
  then obtain c2 where
    c1: "matches (data c1) = fold (put match_key (\<lambda>x r. r)) rows (matches (data c))"
        "(data c1)\<lparr>matches := []\<rparr> = (data c)\<lparr>matches := []\<rparr>" and
    c2: "batched n upsert_matches rows c1 = (Inr m, c2)"
        "matches (data c2) = matches (data c1)"
        "(data c2)\<lparr>matches := []\<rparr> = (data c1)\<lparr>matches := []\<rparr>" by blast
  from matches_ext [OF c2(2,3)] have "data c2 = data c1" by simp
  with c2(1) matches_ext [OF c1] show ?thesis by blast
qed

lemma batched_decks_unsplit:
  assumes "0 < n" and "upsert_decks rows c = Inr c1"
  shows "\<exists>c2. batched n upsert_decks rows c = (Inr (length rows), c2) \<and> data c2 = data c1"
proof -
  have "\<exists>c2. batched n upsert_decks rows c = (Inr (length rows), c2) \<and>
    decks (data c2) = decks (data c1) \<and>
    (data c2)\<lparr>decks := []\<rparr> = (data c1)\<lparr>decks := []\<rparr>"
    by (rule batched_unsplit [where key = dk_id and okc = "\<lambda>c. deck_fk (data c)",
          OF upsert_decks_writes upsert_decks_checked assms])
  then obtain c2 where c2: "batched n upsert_decks rows c = (Inr (length rows), c2)"
    "decks (data c2) = decks (data c1)"
    "(data c2)\<lparr>decks := []\<rparr> = (data c1)\<lparr>decks := []\<rparr>" by blast
  from decks_ext [OF c2(2,3)] have "data c2 = data c1" by simp
  with c2(1) show ?thesis by blast
qed

lemma batched_decks_again:
  assumes "0 < n" and "batched n upsert_decks rows c = (Inr m, c1)"
  shows "data c1 = (data c)\<lparr>decks := fold (put dk_id (\<lambda>x r. r)) rows (decks (data c))\<rparr> \<and>
         (\<exists>c2. batched n upsert_decks rows c1 = (Inr m, c2) \<and> data c2 = data c1)"
proof -
  have "decks (data c1) = fold (put dk_id (\<lambda>x r. r)) rows (decks (data c)) \<and>
     (data c1)\<lparr>decks := []\<rparr> = (data c)\<lparr>decks := []\<rparr> \<and>
     deck_fk (data c1) = deck_fk (data c) \<and>
     (\<exists>c2. batched n upsert_decks rows c1 = (Inr m, c2) \<and>
        decks (data c2) = decks (data c1) \<and>
        (data c2)\<lparr>decks := []\<rparr> = (data c1)\<lparr>decks := []\<rparr>)"
    by (rule batched_again [where key = dk_id and okc = "\<lambda>c. deck_fk (data c)",
          OF upsert_decks_writes upsert_decks_checked assms])
  then obtain c2 where
    c1: "decks (data c1) = fold (put dk_id (\<lambda>x r. r)) rows (decks (data c))"
        "(data c1)\<lparr>decks := []\<rparr> = (data c)\<lparr>decks := []\<rparr>" and
    c2: "batched n upsert_decks rows c1 = (Inr m, c2)"
        "decks (data c2) = decks (data c1)"
        "(data c2)\<lparr>decks := []\<rparr> = (data c1)\<lparr>decks := []\<rparr>" by blast
  from decks_ext [OF c2(2,3)] have "data c2 = data c1" by simp
  with c2(1) decks_ext [OF c1] show ?thesis by blast
qed

lemma batched_archetypes_unsplit:
  assumes "0 < n" and "upsert_archetypes rows c = Inr c1"
  shows "\<exists>c2. batched n upsert_archetypes rows c = (Inr (length rows), c2) \<and> data c2 = data c1"
proof -
  have "\<exists>c2. batched n upsert_archetypes rows c = (Inr (length rows), c2) \<and>
    archetypes (data c2) = archetypes (data c1) \<and>
    (data c2)\<lparr>archetypes := []\<rparr> = (data c1)\<lparr>archetypes := []\<rparr>"
    by (rule batched_unsplit [where key = ar_id and okc = "\<lambda>c. archetype_fk (data c)",
          OF upsert_archetypes_writes upsert_archetypes_checked assms])
  then obtain c2 where c2: "batched n upsert_archetypes rows c = (Inr (length rows), c2)"
    "archetypes (data c2) = archetypes (data c1)"
    "(data c2)\<lparr>archetypes := []\<rparr> = (data c1)\<lparr>archetypes := []\<rparr>" by blast
  from archetypes_ext [OF c2(2,3)] have "data c2 = data c1" by simp
  with c2(1) show ?thesis by blast
qed

lemma batched_archetypes_again:
  assumes "0 < n" and "batched n upsert_archetypes rows c = (Inr m, c1)"
  shows "data c1 = (data c)\<lparr>archetypes := fold (put ar_id (\<lambda>x r. r)) rows (archetypes (data c))\<rparr> \<and>
         (\<exists>c2. batched n upsert_archetypes rows c1 = (Inr m, c2) \<and> data c2 = data c1)"
proof -
  have "archetypes (data c1) = fold (put ar_id (\<lambda>x r. r)) rows (archetypes (data c)) \<and>
     (data c1)\<lparr>archetypes := []\<rparr> = (data c)\<lparr>archetypes := []\<rparr> \<and>
     archetype_fk (data c1) = archetype_fk (data c) \<and>
     (\<exists>c2. batched n upsert_archetypes rows c1 = (Inr m, c2) \<and>
        archetypes (data c2) = archetypes (data c1) \<and>
        (data c2)\<lparr>archetypes := []\<rparr> = (data c1)\<lparr>archetypes := []\<rparr>)"
    by (rule batched_again [where key = ar_id and okc = "\<lambda>c. archetype_fk (data c)",
          OF upsert_archetypes_writes upsert_archetypes_checked assms])
  then obtain c2 where
    c1: "archetypes (data c1) = fold (put ar_id (\<lambda>x r. r)) rows (archetypes (data c))"
        "(data c1)\<lparr>archetypes := []\<rparr> = (data c)\<lparr>archetypes := []\<rparr>" and
    c2: "batched n upsert_archetypes rows c1 = (Inr m, c2)"
        "archetypes (data c2) = archetypes (data c1)"
        "(data c2)\<lparr>archetypes := []\<rparr> = (data c1)\<lparr>archetypes := []\<rparr>" by blast
  from archetypes_ext [OF c2(2,3)] have "data c2 = data c1" by simp
  with c2(1) archetypes_ext [OF c1] show ?thesis by blast
qed

text \<open>The unbatched statements: events and players.\<close>

lemma syncEvents_again:
  assumes "syncEvents evs c = (Inr m, c1)"
  shows "data c1 = (data c)\<lparr>events := fold (put ev_id (\<lambda>x r. r)) evs (events (data c))\<rparr> \<and>
         (\<exists>c2. syncEvents evs c1 = (Inr m, c2) \<and> data c2 = data c1)"
proof (cases "evs = []")
  case True
  then show ?thesis using assms by (auto simp: syncEvents_def)
next
  case False
  let ?T = "fold (put ev_id (\<lambda>x r. r)) evs (events (data c))"
  from assms False have d: "distinct (map ev_id evs)" and m: "m = length evs"
    and c1: "c1 = commit Events ((data c)\<lparr>events := ?T\<rparr>) c"
    by (auto simp: syncEvents_def upsert_events_def on_conflict_do_update_def
        put_excluded [of ev_id event_excluded, OF event_excluded_eq]
        split: sum.splits if_splits)
  have "fold (put ev_id (\<lambda>x r. r)) evs ?T = ?T" by (rule fold_put_idem)
  then have "syncEvents evs c1 =
      (Inr m, commit Events ((data c1)\<lparr>events := ?T\<rparr>) c1)"
    using False d m c1
    by (simp add: syncEvents_def upsert_events_def on_conflict_do_update_def commit_def
        list_all_iff put_excluded [of ev_id event_excluded, OF event_excluded_eq])
  then show ?thesis using c1 by (simp add: commit_def)
qed

lemma insert_players_names:
  "insert_players_on_conflict_name_do_nothing tbl batch = Inr tbl' \<Longrightarrow>
   pl_name ` set batch \<subseteq> pl_name ` set tbl'"
proof (induction batch arbitrary: tbl)
  case Nil
  then show ?case by simp
next
  case (Cons p ps)
  show ?case
  proof (cases "pl_name p \<in> pl_name ` set tbl")
    case True
    with Cons.prems have *: "insert_players_on_conflict_name_do_nothing tbl ps = Inr tbl'"
      by simp
    from insert_players_appends [OF *] True have "pl_name p \<in> pl_name ` set tbl'" by auto
    with Cons.IH [OF *] show ?thesis by simp
  next
    case False
    with Cons.prems have
      *: "insert_players_on_conflict_name_do_nothing (tbl @ [p]) ps = Inr tbl'"
      by (auto split: if_splits)
    from insert_players_appends [OF *] have "pl_name p \<in> pl_name ` set tbl'" by auto
    with Cons.IH [OF *] show ?thesis by simp
  qed
qed

lemma insert_players_present:
  "pl_name ` set batch \<subseteq> pl_name ` set tbl \<Longrightarrow>
   insert_players_on_conflict_name_do_nothing tbl batch = Inr tbl"
  by (induction batch) auto

lemma insert_players_again:
  assumes "insert_players plan c = Inr c1"
  shows "\<exists>c2. insert_players plan c1 = Inr c2 \<and> data c2 = data c1"
proof -
  from assms obtain t where
    t: "insert_players_on_conflict_name_do_nothing (players (data c)) plan = Inr t"
    and c1: "c1 = commit Players ((data c)\<lparr>players := t\<rparr>) c"
    by (auto simp: insert_players_def split: sum.splits)
  have "players (data c1) = t" using c1 by (simp add: commit_def)
  with insert_players_present [OF insert_players_names [OF t]]
  have "insert_players_on_conflict_name_do_nothing (players (data c1)) plan = Inr (players (data c1))"
    by simp
  then show ?thesis by (simp add: insert_players_def commit_def)
qed

lemma batch_sizes_positive:
  "0 < STANDINGS_BATCH_SIZE" "0 < MATCHES_BATCH_SIZE" "0 < DECKS_BATCH_SIZE"
  "0 < ARCHETYPES_BATCH_SIZE"
  by (simp_all add: STANDINGS_BATCH_SIZE_def MATCHES_BATCH_SIZE_def DECKS_BATCH_SIZE_def
      ARCHETYPES_BATCH_SIZE_def)

section \<open>Batch splitting\<close>

lemma unsplit_G:
  "upsert_standings rows_G conn_G =
     Inr \<lparr>data = (data conn_G)\<lparr>standings := rows_G\<rparr>, journal = [Standings]\<rparr>"
  by code_simp

lemma batched_G:
  "batched 2 upsert_standings rows_G conn_G =
     (Inr 3, \<lparr>data = (data conn_G)\<lparr>standings := rows_G\<rparr>, journal = [Standings, Standings]\<rparr>)"
  by code_simp

lemma records_G:
  "batch_loop 2 (\<lambda>b s. Inr (s @ [b])) rows_G 0 [] =
     (None, [[mk_standing 100 1 ''Alice'', mk_standing 100 2 ''Carol''],
             [mk_standing 100 3 ''Dave'']])"
  by code_simp

text \<open>
  C6, as amended.  For every list of records and every positive batch size, the loop hands its
  statement batches that, put end to end, are the records in their order (each record
  once); no batch is empty or longer than the batch size; when the batch size is
  smaller than the number of records there is more than one batch.  With the batch
  sizes and column counts of the four batched stages, a batch has fewer parameters than
  the limit.  And for each of the four upserts, whenever writing the records with one
  statement succeeds, writing them in batches of any positive size succeeds too, counts
  all records, and leaves the same database.
\<close>

theorem batch_splitting_transparent:
  assumes "0 < n"
  shows
    "(\<exists>bs. batch_loop n (\<lambda>b s. Inr (s @ [b])) rows 0 [] = (None, bs) \<and> concat bs = rows \<and>
        (\<forall>b \<in> set bs. b \<noteq> [] \<and> length b \<le> n) \<and> (n < length rows \<longrightarrow> 1 < length bs)) \<and>
     (\<forall>k \<le> STANDINGS_BATCH_SIZE. k * STANDING_COLUMNS < PARAMETER_LIMIT) \<and>
     (\<forall>k \<le> MATCHES_BATCH_SIZE. k * MATCH_COLUMNS < PARAMETER_LIMIT) \<and>
     (\<forall>k \<le> DECKS_BATCH_SIZE. k * DECK_COLUMNS < PARAMETER_LIMIT) \<and>
     (\<forall>k \<le> ARCHETYPES_BATCH_SIZE. k * ARCHETYPE_COLUMNS < PARAMETER_LIMIT) \<and>
     (\<forall>c1. upsert_standings ss c = Inr c1 \<longrightarrow>
        (\<exists>c2. batched n upsert_standings ss c = (Inr (length ss), c2) \<and> data c2 = data c1)) \<and>
     (\<forall>c1. upsert_matches ms c = Inr c1 \<longrightarrow>
        (\<exists>c2. batched n upsert_matches ms c = (Inr (length ms), c2) \<and> data c2 = data c1)) \<and>
     (\<forall>c1. upsert_decks ks c = Inr c1 \<longrightarrow>
        (\<exists>c2. batched n upsert_decks ks c = (Inr (length ks), c2) \<and> data c2 = data c1)) \<and>
     (\<forall>c1. upsert_archetypes as c = Inr c1 \<longrightarrow>
        (\<exists>c2. batched n upsert_archetypes as c = (Inr (length as), c2) \<and> data c2 = data c1))"
proof -
  from batch_loop_records [OF assms, of rows 0 "[]"] obtain bs where
    bs: "batch_loop n (\<lambda>b s. Inr (s @ [b])) rows 0 [] = (None, bs)" "concat bs = rows"
        "\<forall>b \<in> set bs. b \<noteq> [] \<and> length b \<le> n" by auto
  have "n < length rows \<longrightarrow> 1 < length bs"
  proof
    assume lt: "n < length rows"
    have "length (concat bs) \<le> n * length bs" using bs(3) by (intro concat_length_bound) auto
    then have le: "length rows \<le> n * length bs" using bs(2) by simp
    show "1 < length bs"
    proof (rule ccontr)
      assume "\<not> 1 < length bs"
      then have "n * length bs \<le> n * 1" by (intro mult_le_mono2) simp
      with le lt show False by simp
    qed
  qed
  with bs have 1: "\<exists>bs. batch_loop n (\<lambda>b s. Inr (s @ [b])) rows 0 [] = (None, bs) \<and>
      concat bs = rows \<and> (\<forall>b \<in> set bs. b \<noteq> [] \<and> length b \<le> n) \<and>
      (n < length rows \<longrightarrow> 1 < length bs)" by blast
  have 2: "\<forall>k \<le> STANDINGS_BATCH_SIZE. k * STANDING_COLUMNS < PARAMETER_LIMIT"
    by (simp add: STANDINGS_BATCH_SIZE_def STANDING_COLUMNS_def PARAMETER_LIMIT_def)
  have 3: "\<forall>k \<le> MATCHES_BATCH_SIZE. k * MATCH_COLUMNS < PARAMETER_LIMIT"
    by (simp add: MATCHES_BATCH_SIZE_def MATCH_COLUMNS_def PARAMETER_LIMIT_def)
  have 4: "\<forall>k \<le> DECKS_BATCH_SIZE. k * DECK_COLUMNS < PARAMETER_LIMIT"
    by (simp add: DECKS_BATCH_SIZE_def DECK_COLUMNS_def PARAMETER_LIMIT_def)
  have 5: "\<forall>k \<le> ARCHETYPES_BATCH_SIZE. k * ARCHETYPE_COLUMNS < PARAMETER_LIMIT"
    by (simp add: ARCHETYPES_BATCH_SIZE_def ARCHETYPE_COLUMNS_def PARAMETER_LIMIT_def)
  have 6: "\<forall>c1. upsert_standings ss c = Inr c1 \<longrightarrow>
        (\<exists>c2. batched n upsert_standings ss c = (Inr (length ss), c2) \<and> data c2 = data c1)"
    using batched_standings_unsplit [OF assms] by blast
  have 7: "\<forall>c1. upsert_matches ms c = Inr c1 \<longrightarrow>
        (\<exists>c2. batched n upsert_matches ms c = (Inr (length ms), c2) \<and> data c2 = data c1)"
    using batched_matches_unsplit [OF assms] by blast
  have 8: "\<forall>c1. upsert_decks ks c = Inr c1 \<longrightarrow>
        (\<exists>c2. batched n upsert_decks ks c = (Inr (length ks), c2) \<and> data c2 = data c1)"
    using batched_decks_unsplit [OF assms] by blast
  have 9: "\<forall>c1. upsert_archetypes as c = Inr c1 \<longrightarrow>
        (\<exists>c2. batched n upsert_archetypes as c = (Inr (length as), c2) \<and> data c2 = data c1)"
    using batched_archetypes_unsplit [OF assms] by blast
  show ?thesis
    apply (intro conjI)
            apply (rule 1)
           apply (rule 2)
          apply (rule 3)
         apply (rule 4)
        apply (rule 5)
       apply (rule 6)
      apply (rule 7)
     apply (rule 8)
    apply (rule 9)
    done
qed

text \<open>
  Three standings in batches of two: a batch of two and a batch of one, and the same
  database as with one statement.
\<close>

theorem batch_splitting_transparent_witness:
  "(0 :: nat) < 2 \<and>
   batch_loop 2 (\<lambda>b s. Inr (s @ [b])) rows_G 0 [] =
     (None, [[mk_standing 100 1 ''Alice'', mk_standing 100 2 ''Carol''],
             [mk_standing 100 3 ''Dave'']]) \<and>
   upsert_standings rows_G conn_G =
     Inr \<lparr>data = (data conn_G)\<lparr>standings := rows_G\<rparr>, journal = [Standings]\<rparr> \<and>
   batched 2 upsert_standings rows_G conn_G =
     (Inr 3, \<lparr>data = (data conn_G)\<lparr>standings := rows_G\<rparr>, journal = [Standings, Standings]\<rparr>)"
proof -
  have h: "(0 :: nat) < 2" by simp
  from batch_splitting_transparent [OF h, of rows_G rows_G conn_G]
  show ?thesis by (simp only: unsplit_G batched_G records_G h simp_thms)
qed

text \<open>
  The claim as written, for every record set, fails where the write with one statement
  fails.  Of the two matches, Zed's references a player that the target lacks: the one
  statement fails and writes nothing, while in batches of one the first statement has
  written Alice's match when the second fails.  And the two standings have the same key:
  the one statement fails, for it would update a row twice, while in batches of one both
  statements succeed and the second standing replaces the first.
\<close>

theorem batch_splitting_failure_counterexample:
  "upsert_matches [mk_match 2 100 1 ''Alice'', mk_match 3 100 1 ''Zed''] conn_H =
     Inl ForeignKeyViolation \<and>
   fst (batched 1 upsert_matches [mk_match 2 100 1 ''Alice'', mk_match 3 100 1 ''Zed''] conn_H) =
     Inl ForeignKeyViolation \<and>
   matches (data (snd (batched 1 upsert_matches
       [mk_match 2 100 1 ''Alice'', mk_match 3 100 1 ''Zed''] conn_H))) =
     [mk_match 2 100 1 ''Alice''] \<and>
   matches (data conn_H) = [] \<and>
   upsert_standings [mk_standing 100 1 ''Alice'', mk_standing 100 2 ''Alice''] conn_G =
     Inl CardinalityViolation \<and>
   fst (batched 1 upsert_standings
       [mk_standing 100 1 ''Alice'', mk_standing 100 2 ''Alice''] conn_G) = Inr 2 \<and>
   standings (data (snd (batched 1 upsert_standings
       [mk_standing 100 1 ''Alice'', mk_standing 100 2 ''Alice''] conn_G))) =
     [mk_standing 100 2 ''Alice''] \<and>
   standings (data conn_G) = []"
proof -
  have a: "upsert_matches [mk_match 2 100 1 ''Alice'', mk_match 3 100 1 ''Zed''] conn_H =
     Inl ForeignKeyViolation"
    by code_simp
  have b: "fst (batched 1 upsert_matches
       [mk_match 2 100 1 ''Alice'', mk_match 3 100 1 ''Zed''] conn_H) =
     Inl ForeignKeyViolation"
    by code_simp
  have c: "matches (data (snd (batched 1 upsert_matches
       [mk_match 2 100 1 ''Alice'', mk_match 3 100 1 ''Zed''] conn_H))) =
     [mk_match 2 100 1 ''Alice'']"
    by code_simp
  have d: "matches (data conn_H) = []"
    by (simp add: conn_H_def target_H_def empty_db_def)
  have e: "upsert_standings [mk_standing 100 1 ''Alice'', mk_standing 100 2 ''Alice''] conn_G =
     Inl CardinalityViolation"
    by code_simp
  have f: "fst (batched 1 upsert_standings
       [mk_standing 100 1 ''Alice'', mk_standing 100 2 ''Alice''] conn_G) = Inr 2"
    by code_simp
  have g: "standings (data (snd (batched 1 upsert_standings
       [mk_standing 100 1 ''Alice'', mk_standing 100 2 ''Alice''] conn_G))) =
     [mk_standing 100 2 ''Alice'']"
    by code_simp
  have h: "standings (data conn_G) = []"
    by (simp add: conn_G_def empty_db_def)
  from a b c d e f g h show ?thesis by (intro conjI)
qed

section \<open>Writing the same records twice\<close>

lemma batched_G_8000:
  "batched STANDINGS_BATCH_SIZE upsert_standings rows_G conn_G =
     (Inr 3, \<lparr>data = (data conn_G)\<lparr>standings := rows_G\<rparr>, journal = [Standings]\<rparr>)"
  by code_simp

lemma batched_G_8000_again:
  "batched STANDINGS_BATCH_SIZE upsert_standings rows_G
     \<lparr>data = (data conn_G)\<lparr>standings := rows_G\<rparr>, journal = [Standings]\<rparr> =
     (Inr 3, \<lparr>data = (data conn_G)\<lparr>standings := rows_G\<rparr>, journal = [Standings, Standings]\<rparr>)"
  by code_simp

text \<open>
  C3.  For every entity category, writing a record set that was written successfully
  once more succeeds again with the same count and leaves the database as the first
  write left it.  After the first write the table is the old table with the records
  put in one by one, where putting a record replaces the row that has its key, all
  columns, or appends the record when no row has its key.  The key is (event id,
  player) for standings, (event id, round, player) for matches (the match id is an
  ordinary column and is overwritten), and the id for decks, archetypes and events;
  players are inserted by name and an existing name is left alone.  Putting records into
  a table with pairwise distinct keys gives a table with pairwise distinct keys: no
  duplicate rows; the keys afterwards are the old keys and the records' keys; rows with
  other keys stay as they were; and records with pairwise distinct keys are all in the
  table afterwards, column for column.
\<close>

theorem upsert_twice:
  "(batched STANDINGS_BATCH_SIZE upsert_standings ss c = (Inr m, c1) \<longrightarrow>
      data c1 = (data c)\<lparr>standings :=
                  fold (put standing_key (\<lambda>x r. r)) ss (standings (data c))\<rparr> \<and>
      (\<exists>c2. batched STANDINGS_BATCH_SIZE upsert_standings ss c1 = (Inr m, c2) \<and>
            data c2 = data c1)) \<and>
   (batched MATCHES_BATCH_SIZE upsert_matches ms c = (Inr m, c1) \<longrightarrow>
      data c1 = (data c)\<lparr>matches := fold (put match_key (\<lambda>x r. r)) ms (matches (data c))\<rparr> \<and>
      (\<exists>c2. batched MATCHES_BATCH_SIZE upsert_matches ms c1 = (Inr m, c2) \<and>
            data c2 = data c1)) \<and>
   (batched DECKS_BATCH_SIZE upsert_decks ks c = (Inr m, c1) \<longrightarrow>
      data c1 = (data c)\<lparr>decks := fold (put dk_id (\<lambda>x r. r)) ks (decks (data c))\<rparr> \<and>
      (\<exists>c2. batched DECKS_BATCH_SIZE upsert_decks ks c1 = (Inr m, c2) \<and> data c2 = data c1)) \<and>
   (batched ARCHETYPES_BATCH_SIZE upsert_archetypes as c = (Inr m, c1) \<longrightarrow>
      data c1 = (data c)\<lparr>archetypes :=
                  fold (put ar_id (\<lambda>x r. r)) as (archetypes (data c))\<rparr> \<and>
      (\<exists>c2. batched ARCHETYPES_BATCH_SIZE upsert_archetypes as c1 = (Inr m, c2) \<and>
            data c2 = data c1)) \<and>
   (syncEvents evs c = (Inr m, c1) \<longrightarrow>
      data c1 = (data c)\<lparr>events := fold (put ev_id (\<lambda>x r. r)) evs (events (data c))\<rparr> \<and>
      (\<exists>c2. syncEvents evs c1 = (Inr m, c2) \<and> data c2 = data c1)) \<and>
   (insert_players plan c = Inr c1 \<longrightarrow>
      (\<exists>c2. insert_players plan c1 = Inr c2 \<and> data c2 = data c1)) \<and>
   (distinct (map key tbl) \<longrightarrow> distinct (map key (fold (put key (\<lambda>x r. r)) rows tbl))) \<and>
   key ` set (fold (put key (\<lambda>x r. r)) rows tbl) = key ` set tbl \<union> key ` set rows \<and>
   set (fold (put key (\<lambda>x r. r)) rows tbl) \<subseteq> set tbl \<union> set rows \<and>
   (\<forall>x \<in> set tbl. key x \<notin> key ` set rows \<longrightarrow> x \<in> set (fold (put key (\<lambda>x r. r)) rows tbl)) \<and>
   (distinct (map key rows) \<longrightarrow> set rows \<subseteq> set (fold (put key (\<lambda>x r. r)) rows tbl))"
proof -
  have 1: "batched STANDINGS_BATCH_SIZE upsert_standings ss c = (Inr m, c1) \<longrightarrow>
      data c1 = (data c)\<lparr>standings :=
                  fold (put standing_key (\<lambda>x r. r)) ss (standings (data c))\<rparr> \<and>
      (\<exists>c2. batched STANDINGS_BATCH_SIZE upsert_standings ss c1 = (Inr m, c2) \<and>
            data c2 = data c1)"
    by (rule impI) (rule batched_standings_again [OF batch_sizes_positive(1)])
  have 2: "batched MATCHES_BATCH_SIZE upsert_matches ms c = (Inr m, c1) \<longrightarrow>
      data c1 = (data c)\<lparr>matches := fold (put match_key (\<lambda>x r. r)) ms (matches (data c))\<rparr> \<and>
      (\<exists>c2. batched MATCHES_BATCH_SIZE upsert_matches ms c1 = (Inr m, c2) \<and>
            data c2 = data c1)"
    by (rule impI) (rule batched_matches_again [OF batch_sizes_positive(2)])
  have 3: "batched DECKS_BATCH_SIZE upsert_decks ks c = (Inr m, c1) \<longrightarrow>
      data c1 = (data c)\<lparr>decks := fold (put dk_id (\<lambda>x r. r)) ks (decks (data c))\<rparr> \<and>
      (\<exists>c2. batched DECKS_BATCH_SIZE upsert_decks ks c1 = (Inr m, c2) \<and> data c2 = data c1)"
    by (rule impI) (rule batched_decks_again [OF batch_sizes_positive(3)])
  have 4: "batched ARCHETYPES_BATCH_SIZE upsert_archetypes as c = (Inr m, c1) \<longrightarrow>
      data c1 = (data c)\<lparr>archetypes :=
                  fold (put ar_id (\<lambda>x r. r)) as (archetypes (data c))\<rparr> \<and>
      (\<exists>c2. batched ARCHETYPES_BATCH_SIZE upsert_archetypes as c1 = (Inr m, c2) \<and>
            data c2 = data c1)"
    by (rule impI) (rule batched_archetypes_again [OF batch_sizes_positive(4)])
  have 5: "syncEvents evs c = (Inr m, c1) \<longrightarrow>
      data c1 = (data c)\<lparr>events := fold (put ev_id (\<lambda>x r. r)) evs (events (data c))\<rparr> \<and>
      (\<exists>c2. syncEvents evs c1 = (Inr m, c2) \<and> data c2 = data c1)"
    by (rule impI) (rule syncEvents_again)
  have 6: "insert_players plan c = Inr c1 \<longrightarrow>
      (\<exists>c2. insert_players plan c1 = Inr c2 \<and> data c2 = data c1)"
    by (rule impI) (rule insert_players_again)
  have 7: "distinct (map key tbl) \<longrightarrow> distinct (map key (fold (put key (\<lambda>x r. r)) rows tbl))"
    by (rule impI) (rule fold_put_distinct)
  have 8: "key ` set (fold (put key (\<lambda>x r. r)) rows tbl) = key ` set tbl \<union> key ` set rows"
    by (rule fold_put_key_set)
  have 9: "set (fold (put key (\<lambda>x r. r)) rows tbl) \<subseteq> set tbl \<union> set rows"
    by (rule fold_put_sub)
  have 10: "\<forall>x \<in> set tbl. key x \<notin> key ` set rows \<longrightarrow>
      x \<in> set (fold (put key (\<lambda>x r. r)) rows tbl)"
    by (intro ballI impI) (rule fold_put_other)
  have 11: "distinct (map key rows) \<longrightarrow> set rows \<subseteq> set (fold (put key (\<lambda>x r. r)) rows tbl)"
    by (rule impI) (rule fold_put_in)
  show ?thesis
    apply (intro conjI)
              apply (rule 1)
             apply (rule 2)
            apply (rule 3)
           apply (rule 4)
          apply (rule 5)
         apply (rule 6)
        apply (rule 7)
       apply (rule 8)
      apply (rule 9)
     apply (rule 10)
    apply (rule 11)
    done
qed

text \<open>The three standings of the example, written twice with the stage's batch size.\<close>

theorem upsert_twice_witness:
  "batched STANDINGS_BATCH_SIZE upsert_standings rows_G conn_G =
     (Inr 3, \<lparr>data = (data conn_G)\<lparr>standings := rows_G\<rparr>, journal = [Standings]\<rparr>) \<and>
   batched STANDINGS_BATCH_SIZE upsert_standings rows_G
     \<lparr>data = (data conn_G)\<lparr>standings := rows_G\<rparr>, journal = [Standings]\<rparr> =
     (Inr 3, \<lparr>data = (data conn_G)\<lparr>standings := rows_G\<rparr>, journal = [Standings, Standings]\<rparr>) \<and>
   distinct (map standing_key rows_G)"
  using upsert_twice [where ss = rows_G and c = conn_G and m = 3
      and ?c1.0 = "\<lparr>data = (data conn_G)\<lparr>standings := rows_G\<rparr>, journal = [Standings]\<rparr>"]
  by (simp only: batched_G_8000 batched_G_8000_again simp_thms)
     (simp add: rows_G_def mk_standing_def standing_key_def)

section \<open>Frames and the journal\<close>









lemma insert_players_frame:
  "insert_players b c = Inr c' \<Longrightarrow>
   (data c')\<lparr>players := []\<rparr> = (data c)\<lparr>players := []\<rparr> \<and> journal c' = journal c @ [Players]"
  by (auto simp: insert_players_def commit_def split: sum.splits)














lemma syncPlayers_frame:
  "(data (snd (syncPlayers up ids c)))\<lparr>players := []\<rparr> = (data c)\<lparr>players := []\<rparr>"
  using syncPlayers_cases [of up ids c] by (auto simp: commit_def)








lemma sync_D:
  "sync upstream_D conn_D =
    (Completed \<lparr>new_events = 1, updated_events = 1, total_events = 2, sum_players = 0,
       sum_standings = 1, sum_matches = 1, sum_decks = 0, sum_archetypes = 0\<rparr>,
     \<lparr>data = local_D\<lparr>events := events local_D @ [mk_event 203 10 (Some 2)],
         standings := standings local_D @ [mk_standing 200 1 ''Alice'']\<rparr>,
       journal = [Events, Standings, Matches]\<rparr>)"
  by code_simp



section \<open>Merging a snapshot\<close>

text \<open>
  The catching loop over a statement that inserts into one table: \<open>tab\<close> reads the
  table, \<open>okc\<close> the references a row must keep, \<open>rest\<close> everything else.
\<close>

lemma insert_each_caught_rule:
  assumes hit: "\<And>r d. key r \<in> key ` set (tab d) \<Longrightarrow> ins r d = Inr d"
    and add: "\<And>r d. key r \<notin> key ` set (tab d) \<Longrightarrow> okc d r \<Longrightarrow>
        \<exists>d'. ins r d = Inr d' \<and> tab d' = tab d @ [r] \<and> okc d' = okc d \<and> rest d' = rest d"
    and bad: "\<And>r d. key r \<notin> key ` set (tab d) \<Longrightarrow> \<not> okc d r \<Longrightarrow> \<exists>e. ins r d = Inl e"
  shows "\<exists>added. tab (snd (insert_each_caught ins rows (n, d))) = tab d @ added \<and>
           set added \<subseteq> {r \<in> set rows. okc d r} \<and>
           (\<forall>r \<in> set rows. okc d r \<longrightarrow> key r \<in> key ` set (tab d @ added)) \<and>
           okc (snd (insert_each_caught ins rows (n, d))) = okc d \<and>
           rest (snd (insert_each_caught ins rows (n, d))) = rest d \<and>
           n + length added \<le> fst (insert_each_caught ins rows (n, d)) \<and>
           fst (insert_each_caught ins rows (n, d)) \<le> n + length rows"
proof (induction rows arbitrary: n d)
  case Nil
  show ?case by simp
next
  case (Cons r rows)
  show ?case
  proof (cases "key r \<in> key ` set (tab d)")
    case True
    from hit [OF True] have s: "insert_each_caught ins (r # rows) (n, d) =
        insert_each_caught ins rows (n + 1, d)" by simp
    from Cons.IH [of "n + 1" d] obtain added where
      a: "tab (snd (insert_each_caught ins rows (n + 1, d))) = tab d @ added"
         "set added \<subseteq> {r \<in> set rows. okc d r}"
         "\<forall>r \<in> set rows. okc d r \<longrightarrow> key r \<in> key ` set (tab d @ added)"
         "okc (snd (insert_each_caught ins rows (n + 1, d))) = okc d"
         "rest (snd (insert_each_caught ins rows (n + 1, d))) = rest d"
         "n + 1 + length added \<le> fst (insert_each_caught ins rows (n + 1, d))"
         "fst (insert_each_caught ins rows (n + 1, d)) \<le> n + 1 + length rows" by blast
    show ?thesis
      unfolding s
      apply (rule exI [of _ added])
      using a True by auto
  next
    case False
    show ?thesis
    proof (cases "okc d r")
      case ok: True
      from add [OF False ok] obtain d' where
        d': "ins r d = Inr d'" "tab d' = tab d @ [r]" "okc d' = okc d" "rest d' = rest d"
        by blast
      then have s: "insert_each_caught ins (r # rows) (n, d) =
        insert_each_caught ins rows (n + 1, d')" by simp
      from Cons.IH [of "n + 1" d'] obtain added where
        a: "tab (snd (insert_each_caught ins rows (n + 1, d'))) = tab d' @ added"
           "set added \<subseteq> {r \<in> set rows. okc d' r}"
           "\<forall>r \<in> set rows. okc d' r \<longrightarrow> key r \<in> key ` set (tab d' @ added)"
           "okc (snd (insert_each_caught ins rows (n + 1, d'))) = okc d'"
           "rest (snd (insert_each_caught ins rows (n + 1, d'))) = rest d'"
           "n + 1 + length added \<le> fst (insert_each_caught ins rows (n + 1, d'))"
           "fst (insert_each_caught ins rows (n + 1, d')) \<le> n + 1 + length rows" by blast
      show ?thesis
        unfolding s
        apply (rule exI [of _ "r # added"])
        using a d'(2,3,4) ok by auto
    next
      case nok: False
      from bad [OF False nok] obtain e where "ins r d = Inl e" by blast
      then have s: "insert_each_caught ins (r # rows) (n, d) =
        insert_each_caught ins rows (n, d)" by simp
      from Cons.IH [of n d] obtain added where
        a: "tab (snd (insert_each_caught ins rows (n, d))) = tab d @ added"
           "set added \<subseteq> {r \<in> set rows. okc d r}"
           "\<forall>r \<in> set rows. okc d r \<longrightarrow> key r \<in> key ` set (tab d @ added)"
           "okc (snd (insert_each_caught ins rows (n, d))) = okc d"
           "rest (snd (insert_each_caught ins rows (n, d))) = rest d"
           "n + length added \<le> fst (insert_each_caught ins rows (n, d))"
           "fst (insert_each_caught ins rows (n, d)) \<le> n + length rows" by blast
      show ?thesis
        unfolding s
        apply (rule exI [of _ added])
        using a nok by auto
    qed
  qed
qed


lemma merge_decks_rule:
  "\<exists>added. decks (snd (merge_decks snap tgt)) = decks tgt @ added \<and>
     set added \<subseteq> {r \<in> set (newDecks snap tgt). deck_fk tgt r} \<and>
     (\<forall>r \<in> set (newDecks snap tgt). deck_fk tgt r \<longrightarrow> dk_id r \<in> dk_id ` set (decks tgt @ added)) \<and>
     deck_fk (snd (merge_decks snap tgt)) = deck_fk tgt \<and>
     (snd (merge_decks snap tgt))\<lparr>decks := []\<rparr> = tgt\<lparr>decks := []\<rparr> \<and>
     0 + length added \<le> fst (merge_decks snap tgt) \<and>
     fst (merge_decks snap tgt) \<le> 0 + length (newDecks snap tgt)"
  unfolding merge_decks_def
proof (rule insert_each_caught_rule [where key = dk_id and tab = decks and okc = deck_fk
      and rest = "\<lambda>d. d\<lparr>decks := []\<rparr>"])
  show "\<And>r d. dk_id r \<in> dk_id ` set (decks d) \<Longrightarrow> insert_deck r d = Inr d"
    by (simp add: insert_deck_def insert_on_conflict_do_nothing_def)
  show "\<And>r d. dk_id r \<notin> dk_id ` set (decks d) \<Longrightarrow> deck_fk d r \<Longrightarrow>
      \<exists>d'. insert_deck r d = Inr d' \<and> decks d' = decks d @ [r] \<and> deck_fk d' = deck_fk d \<and>
           d'\<lparr>decks := []\<rparr> = d\<lparr>decks := []\<rparr>"
    by (simp add: insert_deck_def insert_on_conflict_do_nothing_def breaks_reference_def deck_fk_frame)
  show "\<And>r d. dk_id r \<notin> dk_id ` set (decks d) \<Longrightarrow> \<not> deck_fk d r \<Longrightarrow> \<exists>e. insert_deck r d = Inl e"
    by (simp add: insert_deck_def insert_on_conflict_do_nothing_def breaks_reference_def)
qed

lemma merge_matches_rule:
  "\<exists>added. matches (snd (merge_matches snap tgt)) = matches tgt @ added \<and>
     set added \<subseteq> {r \<in> set (newMatches snap tgt). match_fk tgt r} \<and>
     (\<forall>r \<in> set (newMatches snap tgt). match_fk tgt r \<longrightarrow> match_key r \<in> match_key ` set (matches tgt @ added)) \<and>
     match_fk (snd (merge_matches snap tgt)) = match_fk tgt \<and>
     (snd (merge_matches snap tgt))\<lparr>matches := []\<rparr> = tgt\<lparr>matches := []\<rparr> \<and>
     0 + length added \<le> fst (merge_matches snap tgt) \<and>
     fst (merge_matches snap tgt) \<le> 0 + length (newMatches snap tgt)"
  unfolding merge_matches_def
proof (rule insert_each_caught_rule [where key = match_key and tab = matches and okc = match_fk
      and rest = "\<lambda>d. d\<lparr>matches := []\<rparr>"])
  show "\<And>r d. match_key r \<in> match_key ` set (matches d) \<Longrightarrow> insert_match r d = Inr d"
    by (simp add: insert_match_def insert_on_conflict_do_nothing_def)
  show "\<And>r d. match_key r \<notin> match_key ` set (matches d) \<Longrightarrow> match_fk d r \<Longrightarrow>
      \<exists>d'. insert_match r d = Inr d' \<and> matches d' = matches d @ [r] \<and> match_fk d' = match_fk d \<and>
           d'\<lparr>matches := []\<rparr> = d\<lparr>matches := []\<rparr>"
    by (simp add: insert_match_def insert_on_conflict_do_nothing_def breaks_reference_def match_fk_frame)
  show "\<And>r d. match_key r \<notin> match_key ` set (matches d) \<Longrightarrow> \<not> match_fk d r \<Longrightarrow> \<exists>e. insert_match r d = Inl e"
    by (simp add: insert_match_def insert_on_conflict_do_nothing_def breaks_reference_def)
qed

lemma merge_standings_rule:
  "\<exists>added. standings (snd (merge_standings snap tgt)) = standings tgt @ added \<and>
     set added \<subseteq> {r \<in> set (newStandings snap tgt). standing_fk tgt r} \<and>
     (\<forall>r \<in> set (newStandings snap tgt). standing_fk tgt r \<longrightarrow> standing_key r \<in> standing_key ` set (standings tgt @ added)) \<and>
     standing_fk (snd (merge_standings snap tgt)) = standing_fk tgt \<and>
     (snd (merge_standings snap tgt))\<lparr>standings := []\<rparr> = tgt\<lparr>standings := []\<rparr> \<and>
     0 + length added \<le> fst (merge_standings snap tgt) \<and>
     fst (merge_standings snap tgt) \<le> 0 + length (newStandings snap tgt)"
  unfolding merge_standings_def
proof (rule insert_each_caught_rule [where key = standing_key and tab = standings and okc = standing_fk
      and rest = "\<lambda>d. d\<lparr>standings := []\<rparr>"])
  show "\<And>r d. standing_key r \<in> standing_key ` set (standings d) \<Longrightarrow> insert_standing r d = Inr d"
    by (simp add: insert_standing_def insert_on_conflict_do_nothing_def)
  show "\<And>r d. standing_key r \<notin> standing_key ` set (standings d) \<Longrightarrow> standing_fk d r \<Longrightarrow>
      \<exists>d'. insert_standing r d = Inr d' \<and> standings d' = standings d @ [r] \<and> standing_fk d' = standing_fk d \<and>
           d'\<lparr>standings := []\<rparr> = d\<lparr>standings := []\<rparr>"
    by (simp add: insert_standing_def insert_on_conflict_do_nothing_def breaks_reference_def standing_fk_frame)
  show "\<And>r d. standing_key r \<notin> standing_key ` set (standings d) \<Longrightarrow> \<not> standing_fk d r \<Longrightarrow> \<exists>e. insert_standing r d = Inl e"
    by (simp add: insert_standing_def insert_on_conflict_do_nothing_def breaks_reference_def)
qed

lemma merge_archetypes_rule:
  "\<exists>added. archetypes (snd (merge_archetypes snap tgt)) = archetypes tgt @ added \<and>
     set added \<subseteq> {r \<in> set (newArchetypes snap tgt). archetype_fk tgt r} \<and>
     (\<forall>r \<in> set (newArchetypes snap tgt). archetype_fk tgt r \<longrightarrow> ar_id r \<in> ar_id ` set (archetypes tgt @ added)) \<and>
     archetype_fk (snd (merge_archetypes snap tgt)) = archetype_fk tgt \<and>
     (snd (merge_archetypes snap tgt))\<lparr>archetypes := []\<rparr> = tgt\<lparr>archetypes := []\<rparr> \<and>
     0 + length added \<le> fst (merge_archetypes snap tgt) \<and>
     fst (merge_archetypes snap tgt) \<le> 0 + length (newArchetypes snap tgt)"
  unfolding merge_archetypes_def
proof (rule insert_each_caught_rule [where key = ar_id and tab = archetypes and okc = archetype_fk
      and rest = "\<lambda>d. d\<lparr>archetypes := []\<rparr>"])
  show "\<And>r d. ar_id r \<in> ar_id ` set (archetypes d) \<Longrightarrow> insert_archetype r d = Inr d"
    by (simp add: insert_archetype_def insert_on_conflict_do_nothing_def)
  show "\<And>r d. ar_id r \<notin> ar_id ` set (archetypes d) \<Longrightarrow> archetype_fk d r \<Longrightarrow>
      \<exists>d'. insert_archetype r d = Inr d' \<and> archetypes d' = archetypes d @ [r] \<and> archetype_fk d' = archetype_fk d \<and>
           d'\<lparr>archetypes := []\<rparr> = d\<lparr>archetypes := []\<rparr>"
    by (simp add: insert_archetype_def insert_on_conflict_do_nothing_def breaks_reference_def archetype_fk_frame)
  show "\<And>r d. ar_id r \<notin> ar_id ` set (archetypes d) \<Longrightarrow> \<not> archetype_fk d r \<Longrightarrow> \<exists>e. insert_archetype r d = Inl e"
    by (simp add: insert_archetype_def insert_on_conflict_do_nothing_def breaks_reference_def)
qed

lemma mergeDatabases_total:
  "merge_players snap tgt = Inr (np, d1) \<Longrightarrow> merge_events snap d1 = Inr (ne, d2) \<Longrightarrow>
   \<exists>st d. mergeDatabases snap tgt = Inr (st, d)"
  by (simp add: mergeDatabases_def split: prod.splits)

text \<open>A successful batching loop has checked every row.\<close>

lemma batch_loop_checked:
  assumes a: "\<And>b c. distinct (map key b) \<Longrightarrow> list_all (okc c) b \<Longrightarrow>
        \<exists>c'. stmt b c = Inr c' \<and> tab c' = fold (put key (\<lambda>x r. r)) b (tab c) \<and>
             okc c' = okc c \<and> rest c' = rest c"
    and b: "\<And>b c c'. stmt b c = Inr c' \<Longrightarrow> distinct (map key b) \<and> list_all (okc c) b"
    and "0 < n"
  shows "batch_loop n stmt rows i c = (None, c1) \<Longrightarrow> list_all (okc c) (drop i rows)"
proof (induction "length rows - i" arbitrary: i c rule: less_induct)
  case less
  show ?case
  proof (cases "i < length rows")
    case False
    then show ?thesis by simp
  next
    case True
    let ?b = "take n (drop i rows)"
    from less.prems True assms(3) obtain c' where
      c': "stmt ?b c = Inr c'" "batch_loop n stmt rows (i + n) c' = (None, c1)"
      by (subst (asm) batch_loop.simps) (auto split: sum.splits)
    from b [OF c'(1)] have ok: "distinct (map key ?b)" "list_all (okc c) ?b" by auto
    from a [OF ok] c'(1) have okc': "okc c' = okc c" by auto
    have "length rows - (i + n) < length rows - i" using True assms(3) by simp
    from less.hyps [OF this c'(2)] okc' have "list_all (okc c) (drop (i + n) rows)" by simp
    with ok(2) have "list_all (okc c) (?b @ drop (i + n) rows)" by simp
    moreover have "?b @ drop (i + n) rows = drop i rows"
      by (metis add.commute append_take_drop_id drop_drop)
    ultimately show ?thesis by simp
  qed
qed

lemma batched_checked:
  assumes a: "\<And>b c. distinct (map key b) \<Longrightarrow> list_all (okc c) b \<Longrightarrow>
        \<exists>c'. stmt b c = Inr c' \<and> tab c' = fold (put key (\<lambda>x r. r)) b (tab c) \<and>
             okc c' = okc c \<and> rest c' = rest c"
    and b: "\<And>b c c'. stmt b c = Inr c' \<Longrightarrow> distinct (map key b) \<and> list_all (okc c) b"
    and "0 < n" and "batched n stmt rows c = (Inr m, c1)"
  shows "list_all (okc c) rows"
proof -
  from assms(4) have l: "batch_loop n stmt rows 0 c = (None, c1)"
    by (auto simp: batched_def split: prod.splits option.splits)
  have "list_all (okc c) (drop 0 rows)"
  proof (rule batch_loop_checked [where key = key and stmt = stmt])
    show "\<And>b c. distinct (map key b) \<Longrightarrow> list_all (okc c) b \<Longrightarrow>
        \<exists>c'. stmt b c = Inr c' \<and> tab c' = fold (put key (\<lambda>x r. r)) b (tab c) \<and>
             okc c' = okc c \<and> rest c' = rest c" by (rule a)
    show "\<And>b c c'. stmt b c = Inr c' \<Longrightarrow> distinct (map key b) \<and> list_all (okc c) b"
      by (rule b)
  qed (use assms(3) l in simp_all)
  then show ?thesis by simp
qed

lemma staged_cases: "(\<exists>m c'. r = (Inr m, c')) \<or> (\<exists>e c'. r = (Inl e, c'))"
  by (cases r, cases "fst r") auto

lemma syncStandings_aborts:
  assumes "\<not> list_all (standing_fk (data c)) (upstreamStandings up ids)"
  shows "\<exists>e c'. syncStandings up ids c = (Inl e, c')"
proof (rule ccontr)
  assume "\<not> ?thesis"
  with staged_cases [of "syncStandings up ids c"] obtain m c' where
    ok: "syncStandings up ids c = (Inr m, c')" by blast
  from assms have "upstreamStandings up ids \<noteq> []" by auto
  moreover from this have "ids \<noteq> []" by (auto simp: upstreamStandings_def)
  ultimately have B: "batched STANDINGS_BATCH_SIZE upsert_standings (upstreamStandings up ids) c = (Inr m, c')"
    using ok by (simp add: syncStandings_def Let_def)
  have "list_all (standing_fk (data c)) (upstreamStandings up ids)"
    by (rule batched_checked [where key = standing_key and okc = "\<lambda>c. standing_fk (data c)",
          OF upsert_standings_writes upsert_standings_checked batch_sizes_positive(1) B])
  then show False using assms by simp
qed

lemma syncMatches_aborts:
  assumes "\<not> list_all (match_fk (data c)) (upstreamMatches up ids)"
  shows "\<exists>e c'. syncMatches up ids c = (Inl e, c')"
proof (rule ccontr)
  assume "\<not> ?thesis"
  with staged_cases [of "syncMatches up ids c"] obtain m c' where
    ok: "syncMatches up ids c = (Inr m, c')" by blast
  from assms have "upstreamMatches up ids \<noteq> []" by auto
  moreover from this have "ids \<noteq> []" by (auto simp: upstreamMatches_def)
  ultimately have B: "batched MATCHES_BATCH_SIZE upsert_matches (upstreamMatches up ids) c = (Inr m, c')"
    using ok by (simp add: syncMatches_def Let_def)
  have "list_all (match_fk (data c)) (upstreamMatches up ids)"
    by (rule batched_checked [where key = match_key and okc = "\<lambda>c. match_fk (data c)",
          OF upsert_matches_writes upsert_matches_checked batch_sizes_positive(2) B])
  then show False using assms by simp
qed

lemma syncDecks_aborts:
  assumes "\<not> list_all (deck_fk (data c)) (upstreamDecks up ids)"
  shows "\<exists>e c'. syncDecks up ids c = (Inl e, c')"
proof (rule ccontr)
  assume "\<not> ?thesis"
  with staged_cases [of "syncDecks up ids c"] obtain m c' where
    ok: "syncDecks up ids c = (Inr m, c')" by blast
  from assms have "upstreamDecks up ids \<noteq> []" by auto
  moreover from this have "ids \<noteq> []" by (auto simp: upstreamDecks_def)
  ultimately have B: "batched DECKS_BATCH_SIZE upsert_decks (upstreamDecks up ids) c = (Inr m, c')"
    using ok by (simp add: syncDecks_def Let_def)
  have "list_all (deck_fk (data c)) (upstreamDecks up ids)"
    by (rule batched_checked [where key = dk_id and okc = "\<lambda>c. deck_fk (data c)",
          OF upsert_decks_writes upsert_decks_checked batch_sizes_positive(3) B])
  then show False using assms by simp
qed


lemma syncArchetypes_aborts:
  assumes "\<not> list_all (archetype_fk (data c)) (upstreamArchetypes up (upstreamDeckIds up ids))"
  shows "\<exists>e c'. syncArchetypes up ids c = (Inl e, c')"
proof (rule ccontr)
  assume "\<not> ?thesis"
  with staged_cases [of "syncArchetypes up ids c"] obtain m c' where
    ok: "syncArchetypes up ids c = (Inr m, c')" by blast
  let ?rows = "upstreamArchetypes up (upstreamDeckIds up ids)"
  from assms have ne: "?rows \<noteq> []" by auto
  have "upstreamDeckIds up ids \<noteq> []"
  proof
    assume e: "upstreamDeckIds up ids = []"
    have "filter (\<lambda>a. case ar_deck_id a of None \<Rightarrow> False | Some k \<Rightarrow> k \<in> set [])
            (archetypes up) = []"
      by (auto simp: filter_empty_conv split: option.splits)
    then have "?rows = []" by (simp add: upstreamArchetypes_def e)
    with ne show False by simp
  qed
  moreover from this have "ids \<noteq> []" by (auto simp: upstreamDeckIds_def)
  ultimately have B: "batched ARCHETYPES_BATCH_SIZE upsert_archetypes ?rows c = (Inr m, c')"
    using ok ne by (simp add: syncArchetypes_def Let_def)
  have "list_all (archetype_fk (data c)) ?rows"
    by (rule batched_checked [where key = ar_id and okc = "\<lambda>c. archetype_fk (data c)",
          OF upsert_archetypes_writes upsert_archetypes_checked batch_sizes_positive(4) B])
  then show False using assms by simp
qed

lemma merge_H:
  "mergeDatabases snapshot_H target_H =
     Inr (\<lparr>m_events = 0, m_players = 0, m_matches = 1, m_decks = 1, m_standings = 0,
            m_archetypes = 0\<rparr>,
          target_H\<lparr>matches := [mk_match 2 100 1 ''Alice''], decks := [mk_deck 2 100 ''Alice'']\<rparr>)"
  by code_simp

lemma newMatches_H: "newMatches snapshot_H target_H = [mk_match 2 100 1 ''Alice'']"
  by code_simp

lemma newDecks_H:
  "newDecks snapshot_H target_H = [mk_deck 1 999 ''Alice'', mk_deck 2 100 ''Alice'']"
  by code_simp

lemma merge_decks_H:
  "merge_decks snapshot_H target_H = (1, target_H\<lparr>decks := [mk_deck 2 100 ''Alice'']\<rparr>)"
  by code_simp

lemma syncMatches_H: "syncMatches upstream_H [100] conn_H = (Inl ForeignKeyViolation, conn_H)"
  by code_simp

lemma upstreamMatches_H:
  "upstreamMatches upstream_H [100] = [mk_match 2 100 1 ''Alice'', mk_match 3 100 1 ''Zed'']"
  by code_simp

text \<open>
  C8, as amended.  In the merge of a snapshot, every match and every standing selected for
  insertion references a player name and an event id that the target has (and has a
  key that the target lacks).  A deck selected for insertion references a player name
  that the target has (and has an id that the target lacks); its event is not looked
  at by the selection.  After each of the three stages the table is the old table
  followed by added rows, and every added row is a row of the snapshot whose player and
  event the target has: a deck whose event is missing is left out by the handler of its
  insert.  None of the three stages can fail: when the players and the events stages
  return, the merge returns.
\<close>

theorem merge_filters_dependents:
  "(\<forall>m \<in> set (newMatches snap tgt).
      mt_player m \<in> player_names tgt \<and> mt_event_id m \<in> event_ids tgt \<and>
      match_key m \<notin> match_key ` set (matches tgt)) \<and>
   (\<forall>s \<in> set (newStandings snap tgt).
      st_player s \<in> player_names tgt \<and> st_event_id s \<in> event_ids tgt \<and>
      standing_key s \<notin> standing_key ` set (standings tgt)) \<and>
   (\<forall>k \<in> set (newDecks snap tgt). dk_player k \<in> player_names tgt \<and> dk_id k \<notin> deck_ids tgt) \<and>
   (\<exists>added. decks (snd (merge_decks snap tgt)) = decks tgt @ added \<and>
      (\<forall>k \<in> set added. k \<in> set (decks snap) \<and> dk_player k \<in> player_names tgt \<and>
         dk_event_id k \<in> event_ids tgt)) \<and>
   (\<exists>added. matches (snd (merge_matches snap tgt)) = matches tgt @ added \<and>
      (\<forall>m \<in> set added. m \<in> set (matches snap) \<and> mt_player m \<in> player_names tgt \<and>
         mt_event_id m \<in> event_ids tgt)) \<and>
   (\<exists>added. standings (snd (merge_standings snap tgt)) = standings tgt @ added \<and>
      (\<forall>s \<in> set added. s \<in> set (standings snap) \<and> st_player s \<in> player_names tgt \<and>
         st_event_id s \<in> event_ids tgt)) \<and>
   (\<forall>np d1 ne d2. merge_players snap tgt = Inr (np, d1) \<and> merge_events snap d1 = Inr (ne, d2) \<longrightarrow>
      (\<exists>st d. mergeDatabases snap tgt = Inr (st, d)))"
proof (intro conjI)
  show "\<forall>m \<in> set (newMatches snap tgt).
      mt_player m \<in> player_names tgt \<and> mt_event_id m \<in> event_ids tgt \<and>
      match_key m \<notin> match_key ` set (matches tgt)"
    by (simp add: newMatches_def)
  show "\<forall>s \<in> set (newStandings snap tgt).
      st_player s \<in> player_names tgt \<and> st_event_id s \<in> event_ids tgt \<and>
      standing_key s \<notin> standing_key ` set (standings tgt)"
    by (simp add: newStandings_def)
  show "\<forall>k \<in> set (newDecks snap tgt). dk_player k \<in> player_names tgt \<and> dk_id k \<notin> deck_ids tgt"
    by (simp add: newDecks_def)
  show "\<exists>added. decks (snd (merge_decks snap tgt)) = decks tgt @ added \<and>
      (\<forall>k \<in> set added. k \<in> set (decks snap) \<and> dk_player k \<in> player_names tgt \<and>
         dk_event_id k \<in> event_ids tgt)"
  proof -
    from merge_decks_rule [of snap tgt] obtain added where
      "decks (snd (merge_decks snap tgt)) = decks tgt @ added"
      "set added \<subseteq> {r \<in> set (newDecks snap tgt). deck_fk tgt r}" by blast
    then show ?thesis by (auto simp: newDecks_def deck_fk_def)
  qed
  show "\<exists>added. matches (snd (merge_matches snap tgt)) = matches tgt @ added \<and>
      (\<forall>m \<in> set added. m \<in> set (matches snap) \<and> mt_player m \<in> player_names tgt \<and>
         mt_event_id m \<in> event_ids tgt)"
  proof -
    from merge_matches_rule [of snap tgt] obtain added where
      "matches (snd (merge_matches snap tgt)) = matches tgt @ added"
      "set added \<subseteq> {r \<in> set (newMatches snap tgt). match_fk tgt r}" by blast
    then show ?thesis by (auto simp: newMatches_def match_fk_def)
  qed
  show "\<exists>added. standings (snd (merge_standings snap tgt)) = standings tgt @ added \<and>
      (\<forall>s \<in> set added. s \<in> set (standings snap) \<and> st_player s \<in> player_names tgt \<and>
         st_event_id s \<in> event_ids tgt)"
  proof -
    from merge_standings_rule [of snap tgt] obtain added where
      "standings (snd (merge_standings snap tgt)) = standings tgt @ added"
      "set added \<subseteq> {r \<in> set (newStandings snap tgt). standing_fk tgt r}" by blast
    then show ?thesis by (auto simp: newStandings_def standing_fk_def)
  qed
  show "\<forall>np d1 ne d2. merge_players snap tgt = Inr (np, d1) \<and> merge_events snap d1 = Inr (ne, d2) \<longrightarrow>
      (\<exists>st d. mergeDatabases snap tgt = Inr (st, d))"
    using mergeDatabases_total by blast
qed

text \<open>
  At the example only Alice's match of event 100 is selected; of the two decks selected,
  the one of event 100 is inserted and the one of the missing event 999 is left out;
  the merge returns.
\<close>

theorem merge_filters_dependents_witness:
  "mk_match 2 100 1 ''Alice'' \<in> set (newMatches snapshot_H target_H) \<and>
   (mt_player (mk_match 2 100 1 ''Alice'') \<in> player_names target_H \<and>
    mt_event_id (mk_match 2 100 1 ''Alice'') \<in> event_ids target_H \<and>
    match_key (mk_match 2 100 1 ''Alice'') \<notin> match_key ` set (matches target_H)) \<and>
   mergeDatabases snapshot_H target_H =
     Inr (\<lparr>m_events = 0, m_players = 0, m_matches = 1, m_decks = 1, m_standings = 0,
            m_archetypes = 0\<rparr>,
          target_H\<lparr>matches := [mk_match 2 100 1 ''Alice''], decks := [mk_deck 2 100 ''Alice'']\<rparr>)"
proof -
  have m: "mk_match 2 100 1 ''Alice'' \<in> set (newMatches snapshot_H target_H)"
    by (simp add: newMatches_H)
  from merge_filters_dependents [of snapshot_H target_H, THEN conjunct1, rule_format, OF m]
    m merge_H
  show ?thesis by blast
qed

text \<open>
  The claim as written fails for decks: the deck with id 1 is selected for insertion
  though the event 999 that it references is not on the target.
\<close>

theorem merge_decks_selection_counterexample:
  "newDecks snapshot_H target_H = [mk_deck 1 999 ''Alice'', mk_deck 2 100 ''Alice''] \<and>
   dk_event_id (mk_deck 1 999 ''Alice'') = 999 \<and>
   999 \<notin> event_ids target_H"
  by (simp add: newDecks_H) (simp add: mk_deck_def event_ids_def target_H_def empty_db_def mk_event_def)

text \<open>
  C9, as amended.  In the merge of a snapshot, each of the four dependent stages (decks,
  matches, standings, archetypes) goes through the selected rows one insert at a time;
  an insert that raises is caught, its row is left out, and the loop goes on with the
  rows after it.  After the stage the table is the old table followed by added rows,
  all of them selected rows that keep their references; every selected row that keeps
  its references has its key in the table; and the count that the stage reports is the
  number of inserts that returned, at least the number of rows added and at most the
  number of rows selected.  There is no count of the rows left out.  In the direct sync
  there is no handler: when one of the rows fetched for a stage breaks a reference,
  the stage ends with an error.
\<close>

theorem violations_in_merge_and_sync:
  "(\<forall>e. ins r d = Inl e \<longrightarrow>
      insert_each_caught ins (r # rs) (n, d) = insert_each_caught ins rs (n, d)) \<and>
   (\<exists>added. decks (snd (merge_decks snap tgt)) = decks tgt @ added \<and>
      set added \<subseteq> {r \<in> set (newDecks snap tgt). deck_fk tgt r} \<and>
      (\<forall>r \<in> set (newDecks snap tgt). deck_fk tgt r \<longrightarrow> dk_id r \<in> dk_id ` set (decks tgt @ added)) \<and>
      length added \<le> fst (merge_decks snap tgt) \<and>
      fst (merge_decks snap tgt) \<le> length (newDecks snap tgt)) \<and>
   (\<exists>added. matches (snd (merge_matches snap tgt)) = matches tgt @ added \<and>
      set added \<subseteq> {r \<in> set (newMatches snap tgt). match_fk tgt r} \<and>
      (\<forall>r \<in> set (newMatches snap tgt). match_fk tgt r \<longrightarrow>
         match_key r \<in> match_key ` set (matches tgt @ added)) \<and>
      length added \<le> fst (merge_matches snap tgt) \<and>
      fst (merge_matches snap tgt) \<le> length (newMatches snap tgt)) \<and>
   (\<exists>added. standings (snd (merge_standings snap tgt)) = standings tgt @ added \<and>
      set added \<subseteq> {r \<in> set (newStandings snap tgt). standing_fk tgt r} \<and>
      (\<forall>r \<in> set (newStandings snap tgt). standing_fk tgt r \<longrightarrow>
         standing_key r \<in> standing_key ` set (standings tgt @ added)) \<and>
      length added \<le> fst (merge_standings snap tgt) \<and>
      fst (merge_standings snap tgt) \<le> length (newStandings snap tgt)) \<and>
   (\<exists>added. archetypes (snd (merge_archetypes snap tgt)) = archetypes tgt @ added \<and>
      set added \<subseteq> {r \<in> set (newArchetypes snap tgt). archetype_fk tgt r} \<and>
      (\<forall>r \<in> set (newArchetypes snap tgt). archetype_fk tgt r \<longrightarrow>
         ar_id r \<in> ar_id ` set (archetypes tgt @ added)) \<and>
      length added \<le> fst (merge_archetypes snap tgt) \<and>
      fst (merge_archetypes snap tgt) \<le> length (newArchetypes snap tgt)) \<and>
   (\<not> list_all (standing_fk (data c)) (upstreamStandings up ids) \<longrightarrow>
      (\<exists>e c'. syncStandings up ids c = (Inl e, c'))) \<and>
   (\<not> list_all (match_fk (data c)) (upstreamMatches up ids) \<longrightarrow>
      (\<exists>e c'. syncMatches up ids c = (Inl e, c'))) \<and>
   (\<not> list_all (deck_fk (data c)) (upstreamDecks up ids) \<longrightarrow>
      (\<exists>e c'. syncDecks up ids c = (Inl e, c'))) \<and>
   (\<not> list_all (archetype_fk (data c)) (upstreamArchetypes up (upstreamDeckIds up ids)) \<longrightarrow>
      (\<exists>e c'. syncArchetypes up ids c = (Inl e, c')))"
proof (intro conjI)
  show "\<forall>e. ins r d = Inl e \<longrightarrow>
      insert_each_caught ins (r # rs) (n, d) = insert_each_caught ins rs (n, d)"
    by simp
  show "\<exists>added. decks (snd (merge_decks snap tgt)) = decks tgt @ added \<and>
      set added \<subseteq> {r \<in> set (newDecks snap tgt). deck_fk tgt r} \<and>
      (\<forall>r \<in> set (newDecks snap tgt). deck_fk tgt r \<longrightarrow> dk_id r \<in> dk_id ` set (decks tgt @ added)) \<and>
      length added \<le> fst (merge_decks snap tgt) \<and>
      fst (merge_decks snap tgt) \<le> length (newDecks snap tgt)"
    using merge_decks_rule [of snap tgt] by (elim exE conjE, intro exI conjI) simp_all
  show "\<exists>added. matches (snd (merge_matches snap tgt)) = matches tgt @ added \<and>
      set added \<subseteq> {r \<in> set (newMatches snap tgt). match_fk tgt r} \<and>
      (\<forall>r \<in> set (newMatches snap tgt). match_fk tgt r \<longrightarrow>
         match_key r \<in> match_key ` set (matches tgt @ added)) \<and>
      length added \<le> fst (merge_matches snap tgt) \<and>
      fst (merge_matches snap tgt) \<le> length (newMatches snap tgt)"
    using merge_matches_rule [of snap tgt] by (elim exE conjE, intro exI conjI) simp_all
  show "\<exists>added. standings (snd (merge_standings snap tgt)) = standings tgt @ added \<and>
      set added \<subseteq> {r \<in> set (newStandings snap tgt). standing_fk tgt r} \<and>
      (\<forall>r \<in> set (newStandings snap tgt). standing_fk tgt r \<longrightarrow>
         standing_key r \<in> standing_key ` set (standings tgt @ added)) \<and>
      length added \<le> fst (merge_standings snap tgt) \<and>
      fst (merge_standings snap tgt) \<le> length (newStandings snap tgt)"
    using merge_standings_rule [of snap tgt] by (elim exE conjE, intro exI conjI) simp_all
  show "\<exists>added. archetypes (snd (merge_archetypes snap tgt)) = archetypes tgt @ added \<and>
      set added \<subseteq> {r \<in> set (newArchetypes snap tgt). archetype_fk tgt r} \<and>
      (\<forall>r \<in> set (newArchetypes snap tgt). archetype_fk tgt r \<longrightarrow>
         ar_id r \<in> ar_id ` set (archetypes tgt @ added)) \<and>
      length added \<le> fst (merge_archetypes snap tgt) \<and>
      fst (merge_archetypes snap tgt) \<le> length (newArchetypes snap tgt)"
    using merge_archetypes_rule [of snap tgt] by (elim exE conjE, intro exI conjI) simp_all
  show "\<not> list_all (standing_fk (data c)) (upstreamStandings up ids) \<longrightarrow>
      (\<exists>e c'. syncStandings up ids c = (Inl e, c'))"
    by (rule impI) (rule syncStandings_aborts)
  show "\<not> list_all (match_fk (data c)) (upstreamMatches up ids) \<longrightarrow>
      (\<exists>e c'. syncMatches up ids c = (Inl e, c'))"
    by (rule impI) (rule syncMatches_aborts)
  show "\<not> list_all (deck_fk (data c)) (upstreamDecks up ids) \<longrightarrow>
      (\<exists>e c'. syncDecks up ids c = (Inl e, c'))"
    by (rule impI) (rule syncDecks_aborts)
  show "\<not> list_all (archetype_fk (data c)) (upstreamArchetypes up (upstreamDeckIds up ids)) \<longrightarrow>
      (\<exists>e c'. syncArchetypes up ids c = (Inl e, c'))"
    by (rule impI) (rule syncArchetypes_aborts)
qed

text \<open>
  At the example the insert of the deck of event 999 raises; the merge leaves it out,
  inserts the next deck and reports 1.
\<close>

theorem violations_in_merge_and_sync_witness:
  "insert_deck (mk_deck 1 999 ''Alice'') target_H = Inl ForeignKeyViolation \<and>
   insert_each_caught insert_deck [mk_deck 1 999 ''Alice'', mk_deck 2 100 ''Alice''] (0, target_H) =
     insert_each_caught insert_deck [mk_deck 2 100 ''Alice''] (0, target_H) \<and>
   merge_decks snapshot_H target_H = (1, target_H\<lparr>decks := [mk_deck 2 100 ''Alice'']\<rparr>)"
proof -
  have v: "insert_deck (mk_deck 1 999 ''Alice'') target_H = Inl ForeignKeyViolation"
    by code_simp
  from violations_in_merge_and_sync
    [where ins = insert_deck and r = "mk_deck 1 999 ''Alice''" and d = target_H
       and rs = "[mk_deck 2 100 ''Alice'']" and n = 0,
     THEN conjunct1, rule_format, OF v] v merge_decks_H
  show ?thesis by blast
qed

text \<open>
  The claim as written fails in the direct sync: of the two matches fetched, Zed's
  references a player that the target lacks; the stage does not skip it and go on, it
  ends with the error, and Alice's match, which keeps its references, is not written
  either.
\<close>

theorem syncMatches_aborts_counterexample:
  "upstreamMatches upstream_H [100] = [mk_match 2 100 1 ''Alice'', mk_match 3 100 1 ''Zed''] \<and>
   match_fk (data conn_H) (mk_match 2 100 1 ''Alice'') \<and>
   \<not> match_fk (data conn_H) (mk_match 3 100 1 ''Zed'') \<and>
   syncMatches upstream_H [100] conn_H = (Inl ForeignKeyViolation, conn_H) \<and>
   matches (data conn_H) = []"
  by (simp add: upstreamMatches_H syncMatches_H)
     (simp add: conn_H_def target_H_def empty_db_def match_fk_def event_ids_def
        player_names_def mk_match_def mk_event_def)

section \<open>Running the sync twice\<close>

lemma settled_subset: "settled key rows tbl \<Longrightarrow> set rows' \<subseteq> set rows \<Longrightarrow> settled key rows' tbl"
  by (auto simp: settled_def)

lemma settled_Nil: "settled key [] tbl"
  by (simp add: settled_def)

lemma fold_put_back:
  "x \<in> set (fold (put key (\<lambda>x r. r)) rows tbl) \<Longrightarrow> key x \<notin> key ` set rows \<Longrightarrow> x \<in> set tbl"
  using fold_put_sub [of key rows tbl] by auto

lemma put_owner: "x \<in> set (put key (\<lambda>x r. r) r tbl) \<Longrightarrow> key x = key r \<Longrightarrow> x = r"
proof (cases "key r \<in> key ` set tbl")
  case True
  assume "x \<in> set (put key (\<lambda>x r. r) r tbl)" "key x = key r"
  with True show ?thesis by (auto simp: put_replace [of key r tbl] split: if_splits)
next
  case False
  assume x: "x \<in> set (put key (\<lambda>x r. r) r tbl)" and k: "key x = key r"
  from x False have "x \<in> set tbl \<or> x = r" by (auto simp: put_replace [of key r tbl])
  moreover have "x \<notin> set tbl" using False k by (metis imageI)
  ultimately show ?thesis by simp
qed

lemma fold_put_owner:
  "distinct (map key rows) \<Longrightarrow> r \<in> set rows \<Longrightarrow>
   x \<in> set (fold (put key (\<lambda>x r. r)) rows tbl) \<Longrightarrow> key x = key r \<Longrightarrow> x = r"
proof (induction rows arbitrary: tbl)
  case Nil
  then show ?case by simp
next
  case (Cons r0 rs)
  show ?case
  proof (cases "r = r0")
    case True
    have "key x \<notin> key ` set rs" using Cons.prems(1,4) True by auto
    with Cons.prems(3) have "x \<in> set (put key (\<lambda>x r. r) r0 tbl)"
      by (auto dest: fold_put_back)
    with Cons.prems(4) True show ?thesis by (auto dest: put_owner)
  next
    case False
    with Cons.prems have "r \<in> set rs" "distinct (map key rs)" by auto
    from Cons.IH [OF this(2,1), of "put key (\<lambda>x r. r) r0 tbl"] Cons.prems(3,4)
    show ?thesis by simp
  qed
qed

lemma fold_put_settles:
  "distinct (map key rows) \<Longrightarrow> settled key rows (fold (put key (\<lambda>x r. r)) rows tbl)"
  unfolding settled_def
proof (intro ballI conjI impI)
  fix r assume "distinct (map key rows)" "r \<in> set rows"
  then show "key r \<in> key ` set (fold (put key (\<lambda>x r. r)) rows tbl)"
    by (simp add: fold_put_key_set)
next
  fix r x
  assume "distinct (map key rows)" "r \<in> set rows"
    "x \<in> set (fold (put key (\<lambda>x r. r)) rows tbl)" "key x = key r"
  then show "x = r" by (rule fold_put_owner)
qed

lemma fold_put_settled:
  "settled key rows tbl \<Longrightarrow> fold (put key (\<lambda>x r. r)) rows tbl = tbl"
proof (induction rows)
  case Nil
  then show ?case by simp
next
  case (Cons r rows)
  from Cons.prems have k: "key r \<in> key ` set tbl" and
    o: "\<forall>x \<in> set tbl. key x = key r \<longrightarrow> x = r" and s: "settled key rows tbl"
    by (auto simp: settled_def)
  have "map (\<lambda>x. if key x = key r then r else x) tbl = tbl"
    using o by (intro map_idI) auto
  then have "put key (\<lambda>x r. r) r tbl = tbl" using k by (simp add: put_replace [of key r tbl])
  with Cons.IH [OF s] show ?case by simp
qed

lemma distinct_map_sort_key:
  "distinct (map g (sort_key f xs)) = distinct (map g xs)"
  by (simp add: distinct_map)

text \<open>Writing records that are settled, and what a write settles.\<close>

lemma batched_settled:
  assumes a: "\<And>b c. distinct (map key b) \<Longrightarrow> list_all (okc c) b \<Longrightarrow>
        \<exists>c'. stmt b c = Inr c' \<and> tab c' = fold (put key (\<lambda>x r. r)) b (tab c) \<and>
             okc c' = okc c \<and> rest c' = rest c"
    and "0 < n" and "distinct (map key rows)" and "list_all (okc c) rows"
    and "settled key rows (tab c)"
  shows "\<exists>c'. batched n stmt rows c = (Inr (length rows), c') \<and> tab c' = tab c \<and>
           rest c' = rest c"
proof -
  have "\<exists>c2. batch_loop n stmt rows 0 c = (None, c2) \<and>
           tab c2 = fold (put key (\<lambda>x r. r)) (drop 0 rows) (tab c) \<and>
           okc c2 = okc c \<and> rest c2 = rest c"
  proof (rule batch_loop_unsplit [where key = key])
    show "\<And>b c. distinct (map key b) \<Longrightarrow> list_all (okc c) b \<Longrightarrow>
        \<exists>c'. stmt b c = Inr c' \<and> tab c' = fold (put key (\<lambda>x r. r)) b (tab c) \<and>
             okc c' = okc c \<and> rest c' = rest c" by (rule a)
  qed (use assms(2,3,4) in simp_all)
  then obtain c2 where "batch_loop n stmt rows 0 c = (None, c2)"
    "tab c2 = fold (put key (\<lambda>x r. r)) rows (tab c)" "rest c2 = rest c" by auto
  with fold_put_settled [OF assms(5)] show ?thesis by (simp add: batched_def)
qed

lemma batched_settles:
  assumes a: "\<And>b c. distinct (map key b) \<Longrightarrow> list_all (okc c) b \<Longrightarrow>
        \<exists>c'. stmt b c = Inr c' \<and> tab c' = fold (put key (\<lambda>x r. r)) b (tab c) \<and>
             okc c' = okc c \<and> rest c' = rest c"
    and b: "\<And>b c c'. stmt b c = Inr c' \<Longrightarrow> distinct (map key b) \<and> list_all (okc c) b"
    and "0 < n" and "batched n stmt rows c = (Inr m, c1)" and "distinct (map key rows)"
  shows "settled key rows (tab c1) \<and> list_all (okc c) rows \<and> rest c1 = rest c"
proof -
  have "tab c1 = fold (put key (\<lambda>x r. r)) rows (tab c) \<and> rest c1 = rest c \<and>
         okc c1 = okc c \<and>
         (\<exists>c2. batched n stmt rows c1 = (Inr m, c2) \<and> tab c2 = tab c1 \<and> rest c2 = rest c1)"
    by (rule batched_again [where key = key and okc = okc, OF a b assms(3,4)])
  moreover have "list_all (okc c) rows"
    by (rule batched_checked [where key = key and okc = okc, OF a b assms(3,4)])
  ultimately show ?thesis using fold_put_settles [OF assms(5), of "tab c"] by simp
qed


lemma upstreamStandings_distinct:
  "distinct (map standing_key (standings up)) \<Longrightarrow> distinct (map standing_key (upstreamStandings up ids))"
  by (simp add: upstreamStandings_def distinct_map_sort_key distinct_map_filter)

lemma upstreamStandings_mono: "set ids' \<subseteq> set ids \<Longrightarrow> set (upstreamStandings up ids') \<subseteq> set (upstreamStandings up ids)"
  by (auto simp: upstreamStandings_def)

lemma upstreamStandings_Nil: "upstreamStandings up [] = []"
  by (simp add: upstreamStandings_def)

lemma syncStandings_settles:
  assumes "syncStandings up ids c = (Inr m, c')" and "distinct (map standing_key (standings up))"
  shows "settled standing_key (upstreamStandings up ids) (standings (data c')) \<and>
         list_all (standing_fk (data c)) (upstreamStandings up ids) \<and>
         (data c')\<lparr>standings := []\<rparr> = (data c)\<lparr>standings := []\<rparr>"
proof (cases "ids = [] \<or> upstreamStandings up ids = []")
  case True
  then have "upstreamStandings up ids = []" by (auto simp: upstreamStandings_Nil)
  moreover from this have "c' = c"
    using assms(1) unfolding syncStandings_def Let_def by (auto split: if_splits)
  ultimately show ?thesis by (simp add: settled_Nil)
next
  case False
  then have B: "batched STANDINGS_BATCH_SIZE upsert_standings (upstreamStandings up ids) c = (Inr m, c')"
    using assms(1) by (simp add: syncStandings_def Let_def)
  show ?thesis
    by (rule batched_settles [where key = standing_key and okc = "\<lambda>c. standing_fk (data c)"
          and tab = "\<lambda>c. standings (data c)" and rest = "\<lambda>c. (data c)\<lparr>standings := []\<rparr>",
          OF upsert_standings_writes upsert_standings_checked batch_sizes_positive(1) B
             upstreamStandings_distinct [OF assms(2)]])
qed

lemma syncStandings_settled:
  assumes "distinct (map standing_key (standings up))"
    and "list_all (standing_fk (data d)) (upstreamStandings up ids)"
    and "settled standing_key (upstreamStandings up ids) (standings (data d))"
  shows "\<exists>d'. syncStandings up ids d = (Inr (length (upstreamStandings up ids)), d') \<and> data d' = data d"
proof (cases "ids = [] \<or> upstreamStandings up ids = []")
  case True
  then have "upstreamStandings up ids = []" by (auto simp: upstreamStandings_Nil)
  then show ?thesis by (simp add: syncStandings_def Let_def)
next
  case False
  have "\<exists>d'. batched STANDINGS_BATCH_SIZE upsert_standings (upstreamStandings up ids) d = (Inr (length (upstreamStandings up ids)), d') \<and>
      standings (data d') = standings (data d) \<and> (data d')\<lparr>standings := []\<rparr> = (data d)\<lparr>standings := []\<rparr>"
    by (rule batched_settled [where key = standing_key and okc = "\<lambda>c. standing_fk (data c)",
          OF upsert_standings_writes batch_sizes_positive(1) upstreamStandings_distinct [OF assms(1)]
             assms(2,3)])
  then obtain d' where
    d': "batched STANDINGS_BATCH_SIZE upsert_standings (upstreamStandings up ids) d = (Inr (length (upstreamStandings up ids)), d')"
        "standings (data d') = standings (data d)" "(data d')\<lparr>standings := []\<rparr> = (data d)\<lparr>standings := []\<rparr>"
    by blast
  from standings_ext [OF d'(2,3)] have "data d' = data d" by simp
  with d'(1) False show ?thesis by (simp add: syncStandings_def Let_def)
qed

lemma upstreamMatches_distinct:
  "distinct (map match_key (matches up)) \<Longrightarrow> distinct (map match_key (upstreamMatches up ids))"
  by (simp add: upstreamMatches_def distinct_map_sort_key distinct_map_filter)

lemma upstreamMatches_mono: "set ids' \<subseteq> set ids \<Longrightarrow> set (upstreamMatches up ids') \<subseteq> set (upstreamMatches up ids)"
  by (auto simp: upstreamMatches_def)

lemma upstreamMatches_Nil: "upstreamMatches up [] = []"
  by (simp add: upstreamMatches_def)

lemma syncMatches_settles:
  assumes "syncMatches up ids c = (Inr m, c')" and "distinct (map match_key (matches up))"
  shows "settled match_key (upstreamMatches up ids) (matches (data c')) \<and>
         list_all (match_fk (data c)) (upstreamMatches up ids) \<and>
         (data c')\<lparr>matches := []\<rparr> = (data c)\<lparr>matches := []\<rparr>"
proof (cases "ids = [] \<or> upstreamMatches up ids = []")
  case True
  then have "upstreamMatches up ids = []" by (auto simp: upstreamMatches_Nil)
  moreover from this have "c' = c"
    using assms(1) unfolding syncMatches_def Let_def by (auto split: if_splits)
  ultimately show ?thesis by (simp add: settled_Nil)
next
  case False
  then have B: "batched MATCHES_BATCH_SIZE upsert_matches (upstreamMatches up ids) c = (Inr m, c')"
    using assms(1) by (simp add: syncMatches_def Let_def)
  show ?thesis
    by (rule batched_settles [where key = match_key and okc = "\<lambda>c. match_fk (data c)"
          and tab = "\<lambda>c. matches (data c)" and rest = "\<lambda>c. (data c)\<lparr>matches := []\<rparr>",
          OF upsert_matches_writes upsert_matches_checked batch_sizes_positive(2) B
             upstreamMatches_distinct [OF assms(2)]])
qed

lemma syncMatches_settled:
  assumes "distinct (map match_key (matches up))"
    and "list_all (match_fk (data d)) (upstreamMatches up ids)"
    and "settled match_key (upstreamMatches up ids) (matches (data d))"
  shows "\<exists>d'. syncMatches up ids d = (Inr (length (upstreamMatches up ids)), d') \<and> data d' = data d"
proof (cases "ids = [] \<or> upstreamMatches up ids = []")
  case True
  then have "upstreamMatches up ids = []" by (auto simp: upstreamMatches_Nil)
  then show ?thesis by (simp add: syncMatches_def Let_def)
next
  case False
  have "\<exists>d'. batched MATCHES_BATCH_SIZE upsert_matches (upstreamMatches up ids) d = (Inr (length (upstreamMatches up ids)), d') \<and>
      matches (data d') = matches (data d) \<and> (data d')\<lparr>matches := []\<rparr> = (data d)\<lparr>matches := []\<rparr>"
    by (rule batched_settled [where key = match_key and okc = "\<lambda>c. match_fk (data c)",
          OF upsert_matches_writes batch_sizes_positive(2) upstreamMatches_distinct [OF assms(1)]
             assms(2,3)])
  then obtain d' where
    d': "batched MATCHES_BATCH_SIZE upsert_matches (upstreamMatches up ids) d = (Inr (length (upstreamMatches up ids)), d')"
        "matches (data d') = matches (data d)" "(data d')\<lparr>matches := []\<rparr> = (data d)\<lparr>matches := []\<rparr>"
    by blast
  from matches_ext [OF d'(2,3)] have "data d' = data d" by simp
  with d'(1) False show ?thesis by (simp add: syncMatches_def Let_def)
qed

lemma upstreamDecks_distinct:
  "distinct (map dk_id (decks up)) \<Longrightarrow> distinct (map dk_id (upstreamDecks up ids))"
  by (simp add: upstreamDecks_def distinct_map_sort_key distinct_map_filter)

lemma upstreamDecks_mono: "set ids' \<subseteq> set ids \<Longrightarrow> set (upstreamDecks up ids') \<subseteq> set (upstreamDecks up ids)"
  by (auto simp: upstreamDecks_def)

lemma upstreamDecks_Nil: "upstreamDecks up [] = []"
  by (simp add: upstreamDecks_def)

lemma syncDecks_settles:
  assumes "syncDecks up ids c = (Inr m, c')" and "distinct (map dk_id (decks up))"
  shows "settled dk_id (upstreamDecks up ids) (decks (data c')) \<and>
         list_all (deck_fk (data c)) (upstreamDecks up ids) \<and>
         (data c')\<lparr>decks := []\<rparr> = (data c)\<lparr>decks := []\<rparr>"
proof (cases "ids = [] \<or> upstreamDecks up ids = []")
  case True
  then have "upstreamDecks up ids = []" by (auto simp: upstreamDecks_Nil)
  moreover from this have "c' = c"
    using assms(1) unfolding syncDecks_def Let_def by (auto split: if_splits)
  ultimately show ?thesis by (simp add: settled_Nil)
next
  case False
  then have B: "batched DECKS_BATCH_SIZE upsert_decks (upstreamDecks up ids) c = (Inr m, c')"
    using assms(1) by (simp add: syncDecks_def Let_def)
  show ?thesis
    by (rule batched_settles [where key = dk_id and okc = "\<lambda>c. deck_fk (data c)"
          and tab = "\<lambda>c. decks (data c)" and rest = "\<lambda>c. (data c)\<lparr>decks := []\<rparr>",
          OF upsert_decks_writes upsert_decks_checked batch_sizes_positive(3) B
             upstreamDecks_distinct [OF assms(2)]])
qed

lemma syncDecks_settled:
  assumes "distinct (map dk_id (decks up))"
    and "list_all (deck_fk (data d)) (upstreamDecks up ids)"
    and "settled dk_id (upstreamDecks up ids) (decks (data d))"
  shows "\<exists>d'. syncDecks up ids d = (Inr (length (upstreamDecks up ids)), d') \<and> data d' = data d"
proof (cases "ids = [] \<or> upstreamDecks up ids = []")
  case True
  then have "upstreamDecks up ids = []" by (auto simp: upstreamDecks_Nil)
  then show ?thesis by (simp add: syncDecks_def Let_def)
next
  case False
  have "\<exists>d'. batched DECKS_BATCH_SIZE upsert_decks (upstreamDecks up ids) d = (Inr (length (upstreamDecks up ids)), d') \<and>
      decks (data d') = decks (data d) \<and> (data d')\<lparr>decks := []\<rparr> = (data d)\<lparr>decks := []\<rparr>"
    by (rule batched_settled [where key = dk_id and okc = "\<lambda>c. deck_fk (data c)",
          OF upsert_decks_writes batch_sizes_positive(3) upstreamDecks_distinct [OF assms(1)]
             assms(2,3)])
  then obtain d' where
    d': "batched DECKS_BATCH_SIZE upsert_decks (upstreamDecks up ids) d = (Inr (length (upstreamDecks up ids)), d')"
        "decks (data d') = decks (data d)" "(data d')\<lparr>decks := []\<rparr> = (data d)\<lparr>decks := []\<rparr>"
    by blast
  from decks_ext [OF d'(2,3)] have "data d' = data d" by simp
  with d'(1) False show ?thesis by (simp add: syncDecks_def Let_def)
qed

lemma upstreamArchetypes_distinct:
  "distinct (map ar_id (archetypes up)) \<Longrightarrow> distinct (map ar_id (upstreamArchetypes up dids))"
  by (simp add: upstreamArchetypes_def distinct_map_sort_key distinct_map_filter)

lemma upstreamArchetypes_mono:
  "set ids' \<subseteq> set ids \<Longrightarrow>
   set (upstreamArchetypes up (upstreamDeckIds up ids')) \<subseteq>
   set (upstreamArchetypes up (upstreamDeckIds up ids))"
proof
  fix a
  assume s: "set ids' \<subseteq> set ids"
    and a: "a \<in> set (upstreamArchetypes up (upstreamDeckIds up ids'))"
  then obtain k where k: "ar_deck_id a = Some k" "k \<in> set (upstreamDeckIds up ids')"
    "a \<in> set (archetypes up)"
    by (auto simp: upstreamArchetypes_def split: option.splits)
  from k(2) s have "k \<in> set (upstreamDeckIds up ids)" by (auto simp: upstreamDeckIds_def)
  with k(1,3) show "a \<in> set (upstreamArchetypes up (upstreamDeckIds up ids))"
    by (simp add: upstreamArchetypes_def)
qed

lemma upstreamArchetypes_Nil: "upstreamArchetypes up [] = []"
proof -
  have "filter (\<lambda>a. case ar_deck_id a of None \<Rightarrow> False | Some k \<Rightarrow> k \<in> set [])
          (archetypes up) = []"
    by (auto simp: filter_empty_conv split: option.splits)
  then show ?thesis by (simp add: upstreamArchetypes_def)
qed

lemma upstreamDeckIds_Nil: "upstreamDeckIds up [] = []"
  by (simp add: upstreamDeckIds_def)

lemma syncArchetypes_settles:
  assumes "syncArchetypes up ids c = (Inr m, c')" and "distinct (map ar_id (archetypes up))"
  shows "settled ar_id (upstreamArchetypes up (upstreamDeckIds up ids)) (archetypes (data c')) \<and>
         list_all (archetype_fk (data c)) (upstreamArchetypes up (upstreamDeckIds up ids)) \<and>
         (data c')\<lparr>archetypes := []\<rparr> = (data c)\<lparr>archetypes := []\<rparr>"
proof (cases "ids = [] \<or> upstreamDeckIds up ids = [] \<or>
    upstreamArchetypes up (upstreamDeckIds up ids) = []")
  case True
  then have "upstreamArchetypes up (upstreamDeckIds up ids) = []"
    by (auto simp: upstreamArchetypes_Nil upstreamDeckIds_Nil)
  moreover from this have "c' = c"
    using assms(1) unfolding syncArchetypes_def Let_def by (auto split: if_splits)
  ultimately show ?thesis by (simp add: settled_Nil)
next
  case False
  then have B: "batched ARCHETYPES_BATCH_SIZE upsert_archetypes
      (upstreamArchetypes up (upstreamDeckIds up ids)) c = (Inr m, c')"
    using assms(1) by (simp add: syncArchetypes_def Let_def)
  show ?thesis
    by (rule batched_settles [where key = ar_id and okc = "\<lambda>c. archetype_fk (data c)"
          and tab = "\<lambda>c. archetypes (data c)" and rest = "\<lambda>c. (data c)\<lparr>archetypes := []\<rparr>",
          OF upsert_archetypes_writes upsert_archetypes_checked batch_sizes_positive(4) B
             upstreamArchetypes_distinct [OF assms(2)]])
qed

lemma syncArchetypes_settled:
  assumes "distinct (map ar_id (archetypes up))"
    and "list_all (archetype_fk (data d)) (upstreamArchetypes up (upstreamDeckIds up ids))"
    and "settled ar_id (upstreamArchetypes up (upstreamDeckIds up ids)) (archetypes (data d))"
  shows "\<exists>d'. syncArchetypes up ids d =
           (Inr (length (upstreamArchetypes up (upstreamDeckIds up ids))), d') \<and>
         data d' = data d"
proof (cases "ids = [] \<or> upstreamDeckIds up ids = [] \<or>
    upstreamArchetypes up (upstreamDeckIds up ids) = []")
  case True
  then have "upstreamArchetypes up (upstreamDeckIds up ids) = []"
    by (auto simp: upstreamArchetypes_Nil upstreamDeckIds_Nil)
  then show ?thesis by (simp add: syncArchetypes_def Let_def)
next
  case False
  let ?rows = "upstreamArchetypes up (upstreamDeckIds up ids)"
  have "\<exists>d'. batched ARCHETYPES_BATCH_SIZE upsert_archetypes ?rows d = (Inr (length ?rows), d') \<and>
      archetypes (data d') = archetypes (data d) \<and>
      (data d')\<lparr>archetypes := []\<rparr> = (data d)\<lparr>archetypes := []\<rparr>"
    by (rule batched_settled [where key = ar_id and okc = "\<lambda>c. archetype_fk (data c)",
          OF upsert_archetypes_writes batch_sizes_positive(4)
             upstreamArchetypes_distinct [OF assms(1)] assms(2,3)])
  then obtain d' where
    d': "batched ARCHETYPES_BATCH_SIZE upsert_archetypes ?rows d = (Inr (length ?rows), d')"
        "archetypes (data d') = archetypes (data d)"
        "(data d')\<lparr>archetypes := []\<rparr> = (data d)\<lparr>archetypes := []\<rparr>"
    by blast
  from archetypes_ext [OF d'(2,3)] have "data d' = data d" by simp
  with d'(1) False show ?thesis by (simp add: syncArchetypes_def Let_def)
qed

text \<open>Players and events in the second run.\<close>

lemma referencedPlayerNames_mono:
  "set ids' \<subseteq> set ids \<Longrightarrow>
   set (referencedPlayerNames up ids') \<subseteq> set (referencedPlayerNames up ids)"
  by (auto simp: referencedPlayerNames_def)

lemma syncPlayers_names:
  assumes "syncPlayers up ids c = (Inr n, c')"
  shows "set (referencedPlayerNames up ids) \<subseteq> player_names (data c') \<and>
         (data c')\<lparr>players := []\<rparr> = (data c)\<lparr>players := []\<rparr>"
proof -
  let ?names = "referencedPlayerNames up ids"
  let ?plan = "playersToSync up (players (data c)) ?names"
  have fr: "(data c')\<lparr>players := []\<rparr> = (data c)\<lparr>players := []\<rparr>"
    using syncPlayers_frame [of up ids c] assms by simp
  have old: "pl_name ` set (players (data c)) \<subseteq> pl_name ` set (players (data c'))"
    using syncPlayers_appends [of up ids c] assms by auto
  have pn: "map pl_name ?plan = filter (\<lambda>n. n \<notin> pl_name ` set (players (data c))) ?names"
    unfolding playersToSync_def loop_names by (simp add: localPlayerNameMap_None)
  have new: "pl_name ` set ?plan \<subseteq> pl_name ` set (players (data c'))"
  proof (cases "ids = [] \<or> ?names = [] \<or> ?plan = []")
    case True
    have "?plan = []"
    proof (cases "?plan = []")
      case False
      with True pn show ?thesis by (auto simp: referencedPlayerNames_def)
    qed simp
    then show ?thesis by simp
  next
    case False
    with assms obtain t where
      t: "insert_players_on_conflict_name_do_nothing (players (data c)) ?plan = Inr t"
      and c': "c' = commit Players ((data c)\<lparr>players := t\<rparr>) c"
      by (auto simp: syncPlayers_def Let_def insert_players_def split: sum.splits)
    from insert_players_names [OF t] c' show ?thesis by (simp add: commit_def)
  qed
  have "set ?names \<subseteq> player_names (data c')"
  proof
    fix n assume n: "n \<in> set ?names"
    show "n \<in> player_names (data c')"
    proof (cases "n \<in> pl_name ` set (players (data c))")
      case True
      with old show ?thesis by (auto simp: player_names_def)
    next
      case False
      with n have "n \<in> set (map pl_name ?plan)" unfolding pn by simp
      with new show ?thesis by (auto simp: player_names_def)
    qed
  qed
  with fr show ?thesis by simp
qed

lemma syncPlayers_known:
  assumes "set (referencedPlayerNames up ids) \<subseteq> player_names (data d)"
  shows "syncPlayers up ids d = (Inr 0, d)"
proof -
  let ?names = "referencedPlayerNames up ids"
  let ?plan = "playersToSync up (players (data d)) ?names"
  have "map pl_name ?plan = filter (\<lambda>n. n \<notin> pl_name ` set (players (data d))) ?names"
    unfolding playersToSync_def loop_names by (simp add: localPlayerNameMap_None)
  also have "\<dots> = []" using assms by (auto simp: filter_empty_conv player_names_def)
  finally have "?plan = []" by simp
  then show ?thesis by (simp add: syncPlayers_def Let_def)
qed

lemma getUpstreamEvents_covers:
  "ev_id ` set (events up) \<subseteq>
   getLocalEventIds c \<union> ev_id ` set (getUpstreamEvents up (getLocalEventIds c))"
  by (auto simp: getUpstreamEvents_def)

lemma getUpstreamEvents_known:
  assumes "ev_id ` set (events up) \<subseteq> event_ids (data d)"
  shows "getUpstreamEvents up (getLocalEventIds d) = []"
proof -
  have l: "getLocalEventIds d = event_ids (data d)"
    by (simp add: getLocalEventIds_def event_ids_def)
  show ?thesis
  proof (cases "getLocalEventIds d = {}")
    case True
    with assms l have "events up = []" by auto
    then show ?thesis by (simp add: getUpstreamEvents_def)
  next
    case False
    have "filter (\<lambda>e. ev_id e \<notin> getLocalEventIds d) (events up) = []"
      using assms l by (auto simp: filter_empty_conv)
    with False show ?thesis by (simp add: getUpstreamEvents_def)
  qed
qed

lemma syncEvents_covers:
  assumes "syncEvents evs c = (Inr m, c')"
  shows "ev_id ` set evs \<union> ev_id ` set (events (data c)) \<subseteq> event_ids (data c') \<and>
         (data c')\<lparr>events := []\<rparr> = (data c)\<lparr>events := []\<rparr>"
proof (cases "evs = []")
  case True
  with assms show ?thesis by (auto simp: syncEvents_def event_ids_def)
next
  case False
  from syncEvents_again [OF assms]
  have "data c' = (data c)\<lparr>events := fold (put ev_id (\<lambda>x r. r)) evs (events (data c))\<rparr>"
    by simp
  then show ?thesis by (simp add: event_ids_def fold_put_key_set Un_commute)
qed


text \<open>What is equal when all tables but one are equal.\<close>

lemma events_frame_others:
  "d'\<lparr>events := []\<rparr> = d\<lparr>events := []\<rparr> \<Longrightarrow>
   players d' = players d \<and> standings d' = standings d \<and> matches d' = matches d \<and> decks d' = decks d \<and> archetypes d' = archetypes d"
  by (cases d, cases d') simp

lemma players_frame_others:
  "d'\<lparr>players := []\<rparr> = d\<lparr>players := []\<rparr> \<Longrightarrow>
   events d' = events d \<and> standings d' = standings d \<and> matches d' = matches d \<and> decks d' = decks d \<and> archetypes d' = archetypes d"
  by (cases d, cases d') simp

lemma standings_frame_others:
  "d'\<lparr>standings := []\<rparr> = d\<lparr>standings := []\<rparr> \<Longrightarrow>
   events d' = events d \<and> players d' = players d \<and> matches d' = matches d \<and> decks d' = decks d \<and> archetypes d' = archetypes d"
  by (cases d, cases d') simp

lemma matches_frame_others:
  "d'\<lparr>matches := []\<rparr> = d\<lparr>matches := []\<rparr> \<Longrightarrow>
   events d' = events d \<and> players d' = players d \<and> standings d' = standings d \<and> decks d' = decks d \<and> archetypes d' = archetypes d"
  by (cases d, cases d') simp

lemma decks_frame_others:
  "d'\<lparr>decks := []\<rparr> = d\<lparr>decks := []\<rparr> \<Longrightarrow>
   events d' = events d \<and> players d' = players d \<and> standings d' = standings d \<and> matches d' = matches d \<and> archetypes d' = archetypes d"
  by (cases d, cases d') simp

lemma archetypes_frame_others:
  "d'\<lparr>archetypes := []\<rparr> = d\<lparr>archetypes := []\<rparr> \<Longrightarrow>
   events d' = events d \<and> players d' = players d \<and> standings d' = standings d \<and> matches d' = matches d \<and> decks d' = decks d"
  by (cases d, cases d') simp

lemma standing_fk_cong:
  "events d' = events d \<Longrightarrow> players d' = players d \<Longrightarrow> standing_fk d' = standing_fk d"
  by (rule ext) (simp add: standing_fk_def event_ids_def player_names_def)

lemma match_fk_cong:
  "events d' = events d \<Longrightarrow> players d' = players d \<Longrightarrow> match_fk d' = match_fk d"
  by (rule ext) (simp add: match_fk_def event_ids_def player_names_def)

lemma deck_fk_cong:
  "events d' = events d \<Longrightarrow> players d' = players d \<Longrightarrow> deck_fk d' = deck_fk d"
  by (rule ext) (simp add: deck_fk_def event_ids_def player_names_def)

lemma archetype_fk_cong: "decks d' = decks d \<Longrightarrow> archetype_fk d' = archetype_fk d"
  by (rule ext) (simp add: archetype_fk_def deck_ids_def split: option.splits)

lemma list_all_subset: "list_all P xs \<Longrightarrow> set ys \<subseteq> set xs \<Longrightarrow> list_all P ys"
  by (auto simp: list_all_iff)

lemma then_stage_Inr:
  "then_stage r f = (Inr b, c') \<Longrightarrow> \<exists>a c0. r = (Inr a, c0) \<and> f a c0 = (Inr b, c')"
  by (auto simp: then_stage_def split: prod.splits sum.splits)

lemma then_stage_ok: "then_stage (Inr a, c0) f = f a c0"
  by (simp add: then_stage_def)

text \<open>The stages of a completed run, one by one.\<close>

lemma stages_Inr:
  assumes "stages up new inc c = (Inr s, c1)"
  shows "\<exists>np cA ne cB ns cC nm cD nd cE na.
     syncPlayers up (map ev_id new @ inc) c = (Inr np, cA) \<and>
     (if new \<noteq> [] then syncEvents new cA else (Inr 0, cA)) = (Inr ne, cB) \<and>
     syncStandings up (map ev_id new @ inc) cB = (Inr ns, cC) \<and>
     syncMatches up (map ev_id new @ inc) cC = (Inr nm, cD) \<and>
     syncDecks up (map ev_id new @ inc) cD = (Inr nd, cE) \<and>
     syncArchetypes up (map ev_id new @ inc) cE = (Inr na, c1)"
proof -
  from assms [unfolded stages_def Let_def] obtain np cA where
    1: "syncPlayers up (map ev_id new @ inc) c = (Inr np, cA)" and
    r1: "then_stage (if new \<noteq> [] then syncEvents new cA else (Inr 0, cA)) (\<lambda>ne c2.
      then_stage (syncStandings up (map ev_id new @ inc) c2) (\<lambda>ns c3.
      then_stage (syncMatches up (map ev_id new @ inc) c3) (\<lambda>nm c4.
      then_stage (syncDecks up (map ev_id new @ inc) c4) (\<lambda>nd c5.
      then_stage (syncArchetypes up (map ev_id new @ inc) c5) (\<lambda>na c6.
        (Inr \<lparr>new_events = length new, updated_events = length inc,
             total_events = length (map ev_id new @ inc),
             sum_players = np, sum_standings = ns, sum_matches = nm,
             sum_decks = nd, sum_archetypes = na\<rparr>, c6)))))) = (Inr s, c1)"
    by (blast dest: then_stage_Inr)
  from then_stage_Inr [OF r1] obtain ne cB where
    2: "(if new \<noteq> [] then syncEvents new cA else (Inr 0, cA)) = (Inr ne, cB)" and
    r2: "then_stage (syncStandings up (map ev_id new @ inc) cB) (\<lambda>ns c3.
      then_stage (syncMatches up (map ev_id new @ inc) c3) (\<lambda>nm c4.
      then_stage (syncDecks up (map ev_id new @ inc) c4) (\<lambda>nd c5.
      then_stage (syncArchetypes up (map ev_id new @ inc) c5) (\<lambda>na c6.
        (Inr \<lparr>new_events = length new, updated_events = length inc,
             total_events = length (map ev_id new @ inc),
             sum_players = np, sum_standings = ns, sum_matches = nm,
             sum_decks = nd, sum_archetypes = na\<rparr>, c6))))) = (Inr s, c1)"
    by blast
  from then_stage_Inr [OF r2] obtain ns cC where
    3: "syncStandings up (map ev_id new @ inc) cB = (Inr ns, cC)" and
    r3: "then_stage (syncMatches up (map ev_id new @ inc) cC) (\<lambda>nm c4.
      then_stage (syncDecks up (map ev_id new @ inc) c4) (\<lambda>nd c5.
      then_stage (syncArchetypes up (map ev_id new @ inc) c5) (\<lambda>na c6.
        (Inr \<lparr>new_events = length new, updated_events = length inc,
             total_events = length (map ev_id new @ inc),
             sum_players = np, sum_standings = ns, sum_matches = nm,
             sum_decks = nd, sum_archetypes = na\<rparr>, c6)))) = (Inr s, c1)"
    by blast
  from then_stage_Inr [OF r3] obtain nm cD where
    4: "syncMatches up (map ev_id new @ inc) cC = (Inr nm, cD)" and
    r4: "then_stage (syncDecks up (map ev_id new @ inc) cD) (\<lambda>nd c5.
      then_stage (syncArchetypes up (map ev_id new @ inc) c5) (\<lambda>na c6.
        (Inr \<lparr>new_events = length new, updated_events = length inc,
             total_events = length (map ev_id new @ inc),
             sum_players = np, sum_standings = ns, sum_matches = nm,
             sum_decks = nd, sum_archetypes = na\<rparr>, c6))) = (Inr s, c1)"
    by blast
  from then_stage_Inr [OF r4] obtain nd cE where
    5: "syncDecks up (map ev_id new @ inc) cD = (Inr nd, cE)" and
    r5: "then_stage (syncArchetypes up (map ev_id new @ inc) cE) (\<lambda>na c6.
        (Inr \<lparr>new_events = length new, updated_events = length inc,
             total_events = length (map ev_id new @ inc),
             sum_players = np, sum_standings = ns, sum_matches = nm,
             sum_decks = nd, sum_archetypes = na\<rparr>, c6)) = (Inr s, c1)"
    by blast
  from then_stage_Inr [OF r5] obtain na c6 where
    6: "syncArchetypes up (map ev_id new @ inc) cE = (Inr na, c6)" and "c6 = c1"
    by auto
  with 1 2 3 4 5 show ?thesis by blast
qed


text \<open>The second run after a completed first run, where the first run had work to do.\<close>

lemma stages_twice:
  assumes run1: "stages up new inc c = (Inr s, c1)"
    and new: "new = getUpstreamEvents up (getLocalEventIds c)"
    and st: "distinct (map standing_key (standings up))"
    and mt: "distinct (map match_key (matches up))"
    and dk: "distinct (map dk_id (decks up))"
    and ar: "distinct (map ar_id (archetypes up))"
    and sub: "set W \<subseteq> set (map ev_id new @ inc)"
  shows "getUpstreamEvents up (getLocalEventIds c1) = [] \<and>
    (\<exists>c2. stages up [] W c1 =
       (Inr \<lparr>new_events = 0, updated_events = length W, total_events = length W,
            sum_players = 0,
            sum_standings = length (upstreamStandings up W),
            sum_matches = length (upstreamMatches up W),
            sum_decks = length (upstreamDecks up W),
            sum_archetypes = length (upstreamArchetypes up (upstreamDeckIds up W))\<rparr>, c2) \<and>
       data c2 = data c1)"
proof -
  let ?ids = "map ev_id new @ inc"
  from stages_Inr [OF run1] obtain np cA ne cB ns cC nm cD nd cE na where
    P: "syncPlayers up ?ids c = (Inr np, cA)" and
    E: "(if new \<noteq> [] then syncEvents new cA else (Inr 0, cA)) = (Inr ne, cB)" and
    S: "syncStandings up ?ids cB = (Inr ns, cC)" and
    M: "syncMatches up ?ids cC = (Inr nm, cD)" and
    D: "syncDecks up ?ids cD = (Inr nd, cE)" and
    A: "syncArchetypes up ?ids cE = (Inr na, c1)" by blast
  \<comment> \<open>what each stage of the first run established, and what it left alone\<close>
  from syncPlayers_names [OF P] have
    pn: "set (referencedPlayerNames up ?ids) \<subseteq> player_names (data cA)" and
    pf: "(data cA)\<lparr>players := []\<rparr> = (data c)\<lparr>players := []\<rparr>" by auto
  have ev: "ev_id ` set new \<union> ev_id ` set (events (data cA)) \<subseteq> event_ids (data cB)" and
    ef: "(data cB)\<lparr>events := []\<rparr> = (data cA)\<lparr>events := []\<rparr>"
  proof -
    show "ev_id ` set new \<union> ev_id ` set (events (data cA)) \<subseteq> event_ids (data cB)"
    proof (cases "new = []")
      case True
      with E show ?thesis by (simp add: event_ids_def)
    next
      case False
      with E have "syncEvents new cA = (Inr ne, cB)" by simp
      from syncEvents_covers [OF this] show ?thesis by simp
    qed
    show "(data cB)\<lparr>events := []\<rparr> = (data cA)\<lparr>events := []\<rparr>"
    proof (cases "new = []")
      case True
      with E show ?thesis by simp
    next
      case False
      with E have "syncEvents new cA = (Inr ne, cB)" by simp
      from syncEvents_covers [OF this] show ?thesis by simp
    qed
  qed
  from syncStandings_settles [OF S st] have
    s1: "settled standing_key (upstreamStandings up ?ids) (standings (data cC))" and
    s2: "list_all (standing_fk (data cB)) (upstreamStandings up ?ids)" and
    sf: "(data cC)\<lparr>standings := []\<rparr> = (data cB)\<lparr>standings := []\<rparr>" by auto
  from syncMatches_settles [OF M mt] have
    m1: "settled match_key (upstreamMatches up ?ids) (matches (data cD))" and
    m2: "list_all (match_fk (data cC)) (upstreamMatches up ?ids)" and
    mf: "(data cD)\<lparr>matches := []\<rparr> = (data cC)\<lparr>matches := []\<rparr>" by auto
  from syncDecks_settles [OF D dk] have
    d1: "settled dk_id (upstreamDecks up ?ids) (decks (data cE))" and
    d2: "list_all (deck_fk (data cD)) (upstreamDecks up ?ids)" and
    df: "(data cE)\<lparr>decks := []\<rparr> = (data cD)\<lparr>decks := []\<rparr>" by auto
  from syncArchetypes_settles [OF A ar] have
    a1: "settled ar_id (upstreamArchetypes up (upstreamDeckIds up ?ids)) (archetypes (data c1))" and
    a2: "list_all (archetype_fk (data cE)) (upstreamArchetypes up (upstreamDeckIds up ?ids))" and
    af: "(data c1)\<lparr>archetypes := []\<rparr> = (data cE)\<lparr>archetypes := []\<rparr>" by auto
  note fP = players_frame_others [OF pf]
  note fE = events_frame_others [OF ef]
  note fS = standings_frame_others [OF sf]
  note fM = matches_frame_others [OF mf]
  note fD = decks_frame_others [OF df]
  note fA = archetypes_frame_others [OF af]
  \<comment> \<open>the tables at the end of the first run\<close>
  have t_players: "players (data c1) = players (data cA)"
    using fE fS fM fD fA by simp
  have t_events: "events (data c1) = events (data cB)"
    using fS fM fD fA by simp
  have t_standings: "standings (data c1) = standings (data cC)"
    using fM fD fA by simp
  have t_matches: "matches (data c1) = matches (data cD)"
    using fD fA by simp
  have t_decks: "decks (data c1) = decks (data cE)"
    using fA by simp
  have eA: "events (data cA) = events (data c)" using fP by simp
  \<comment> \<open>no new events for the second run\<close>
  have "ev_id ` set (events up) \<subseteq> getLocalEventIds c \<union> ev_id ` set new"
    unfolding new by (rule getUpstreamEvents_covers)
  also have "getLocalEventIds c = ev_id ` set (events (data cA))"
    by (simp add: getLocalEventIds_def eA)
  finally have "ev_id ` set (events up) \<subseteq> ev_id ` set (events (data cA)) \<union> ev_id ` set new" .
  with ev have "ev_id ` set (events up) \<subseteq> event_ids (data cB)" by blast
  then have "ev_id ` set (events up) \<subseteq> event_ids (data c1)"
    by (simp add: event_ids_def t_events)
  then have new2: "getUpstreamEvents up (getLocalEventIds c1) = []"
    by (rule getUpstreamEvents_known)
  \<comment> \<open>the stages of the second run\<close>
  have "set (referencedPlayerNames up W) \<subseteq> set (referencedPlayerNames up ?ids)"
    using sub by (rule referencedPlayerNames_mono)
  with pn have "set (referencedPlayerNames up W) \<subseteq> player_names (data c1)"
    by (auto simp: player_names_def t_players)
  then have P2: "syncPlayers up W c1 = (Inr 0, c1)" by (rule syncPlayers_known)
  have fk_s: "standing_fk (data c1) = standing_fk (data cB)"
    using t_events t_players fE by (intro standing_fk_cong) simp_all
  have "\<exists>d'. syncStandings up W c1 = (Inr (length (upstreamStandings up W)), d') \<and>
      data d' = data c1"
  proof (rule syncStandings_settled [OF st])
    show "list_all (standing_fk (data c1)) (upstreamStandings up W)"
      unfolding fk_s using s2 upstreamStandings_mono [OF sub] by (rule list_all_subset)
    show "settled standing_key (upstreamStandings up W) (standings (data c1))"
      unfolding t_standings using s1 upstreamStandings_mono [OF sub] by (rule settled_subset)
  qed
  then obtain c3 where
    S2: "syncStandings up W c1 = (Inr (length (upstreamStandings up W)), c3)" and
    c3: "data c3 = data c1" by blast
  have fk_m: "match_fk (data c1) = match_fk (data cC)"
    using t_events t_players fE fS by (intro match_fk_cong) simp_all
  have "\<exists>d'. syncMatches up W c3 = (Inr (length (upstreamMatches up W)), d') \<and>
      data d' = data c3"
  proof (rule syncMatches_settled [OF mt])
    show "list_all (match_fk (data c3)) (upstreamMatches up W)"
      unfolding c3 fk_m using m2 upstreamMatches_mono [OF sub] by (rule list_all_subset)
    show "settled match_key (upstreamMatches up W) (matches (data c3))"
      unfolding c3 t_matches using m1 upstreamMatches_mono [OF sub] by (rule settled_subset)
  qed
  then obtain c4 where
    M2: "syncMatches up W c3 = (Inr (length (upstreamMatches up W)), c4)" and
    c4: "data c4 = data c1" using c3 by auto
  have fk_d: "deck_fk (data c1) = deck_fk (data cD)"
    using t_events t_players fE fS fM by (intro deck_fk_cong) simp_all
  have "\<exists>d'. syncDecks up W c4 = (Inr (length (upstreamDecks up W)), d') \<and>
      data d' = data c4"
  proof (rule syncDecks_settled [OF dk])
    show "list_all (deck_fk (data c4)) (upstreamDecks up W)"
      unfolding c4 fk_d using d2 upstreamDecks_mono [OF sub] by (rule list_all_subset)
    show "settled dk_id (upstreamDecks up W) (decks (data c4))"
      unfolding c4 t_decks using d1 upstreamDecks_mono [OF sub] by (rule settled_subset)
  qed
  then obtain c5 where
    D2: "syncDecks up W c4 = (Inr (length (upstreamDecks up W)), c5)" and
    c5: "data c5 = data c1" using c4 by auto
  have fk_a: "archetype_fk (data c1) = archetype_fk (data cE)"
    using t_decks by (rule archetype_fk_cong)
  have "\<exists>d'. syncArchetypes up W c5 =
           (Inr (length (upstreamArchetypes up (upstreamDeckIds up W))), d') \<and>
         data d' = data c5"
  proof (rule syncArchetypes_settled [OF ar])
    show "list_all (archetype_fk (data c5)) (upstreamArchetypes up (upstreamDeckIds up W))"
      unfolding c5 fk_a using a2 upstreamArchetypes_mono [OF sub] by (rule list_all_subset)
    show "settled ar_id (upstreamArchetypes up (upstreamDeckIds up W)) (archetypes (data c5))"
      unfolding c5 using a1 upstreamArchetypes_mono [OF sub] by (rule settled_subset)
  qed
  then obtain c6 where
    A2: "syncArchetypes up W c5 =
           (Inr (length (upstreamArchetypes up (upstreamDeckIds up W))), c6)" and
    c6: "data c6 = data c1" using c5 by auto
  have "stages up [] W c1 =
       (Inr \<lparr>new_events = 0, updated_events = length W, total_events = length W,
            sum_players = 0,
            sum_standings = length (upstreamStandings up W),
            sum_matches = length (upstreamMatches up W),
            sum_decks = length (upstreamDecks up W),
            sum_archetypes = length (upstreamArchetypes up (upstreamDeckIds up W))\<rparr>, c6)"
    by (simp add: stages_def P2 S2 M2 D2 A2 then_stage_ok)
  with c6 new2 show ?thesis by blast
qed


lemma worklist_D:
  "getIncompleteEventIds (data (snd (sync upstream_D conn_D))) = [203] \<and>
   map ev_id (getUpstreamEvents upstream_D (getLocalEventIds conn_D)) @
     getIncompleteEventIds (data conn_D) = [203, 200]"
  by code_simp

lemma refetched_D:
  "upstreamStandings upstream_D [203] = [] \<and> upstreamMatches upstream_D [203] = [] \<and>
   upstreamDecks upstream_D [203] = [] \<and>
   upstreamArchetypes upstream_D (upstreamDeckIds upstream_D [203]) = []"
  by code_simp

lemma distinct_D:
  "distinct (map standing_key (standings upstream_D)) \<and>
   distinct (map match_key (matches upstream_D)) \<and>
   distinct (map dk_id (decks upstream_D)) \<and>
   distinct (map ar_id (archetypes upstream_D))"
  by code_simp

lemma sync_K:
  "fst (sync upstream_K conn_K) =
     Completed \<lparr>new_events = 1, updated_events = 0, total_events = 1, sum_players = 1,
       sum_standings = 0, sum_matches = 1, sum_decks = 0, sum_archetypes = 0\<rparr> \<and>
   fst (sync upstream_K (snd (sync upstream_K conn_K))) =
     Completed \<lparr>new_events = 0, updated_events = 1, total_events = 1, sum_players = 0,
       sum_standings = 0, sum_matches = 1, sum_decks = 0, sum_archetypes = 0\<rparr> \<and>
   data (snd (sync upstream_K (snd (sync upstream_K conn_K)))) =
     data (snd (sync upstream_K conn_K)) \<and>
   matches (data (snd (sync upstream_K conn_K))) = matches upstream_K"
  by code_simp

text \<open>
  C4, as amended.  Take a first run that completes, from an upstream whose standings,
  matches, decks and archetypes are distinct on their keys, and such that every event
  that is incomplete after it was on its worklist (a new event, or one of the up to 100
  incomplete events it picked).  Then the second run against the same upstream
  completes and leaves every table as the first run left it.  Its summary reports no
  new event and no player; it reports as updated the events that are still incomplete,
  and for standings, matches, decks and archetypes the number of upstream rows fetched
  again for these events, which is zero when no event remains incomplete.
\<close>

theorem sync_twice:
  assumes run1: "sync up c = (Completed s1, c1)"
    and st: "distinct (map standing_key (standings up))"
    and mt: "distinct (map match_key (matches up))"
    and dk: "distinct (map dk_id (decks up))"
    and ar: "distinct (map ar_id (archetypes up))"
    and sub: "set (getIncompleteEventIds (data c1)) \<subseteq>
        set (map ev_id (getUpstreamEvents up (getLocalEventIds c)) @
             getIncompleteEventIds (data c))"
  shows "data (snd (sync up c1)) = data c1 \<and>
    fst (sync up c1) =
      Completed \<lparr>new_events = 0,
        updated_events = length (getIncompleteEventIds (data c1)),
        total_events = length (getIncompleteEventIds (data c1)),
        sum_players = 0,
        sum_standings = length (upstreamStandings up (getIncompleteEventIds (data c1))),
        sum_matches = length (upstreamMatches up (getIncompleteEventIds (data c1))),
        sum_decks = length (upstreamDecks up (getIncompleteEventIds (data c1))),
        sum_archetypes = length (upstreamArchetypes up
            (upstreamDeckIds up (getIncompleteEventIds (data c1))))\<rparr>"
proof -
  let ?new = "getUpstreamEvents up (getLocalEventIds c)"
  let ?inc = "getIncompleteEventIds (data c)"
  let ?W = "getIncompleteEventIds (data c1)"
  show ?thesis
  proof (cases "map ev_id ?new @ ?inc = []")
    case True
    with run1 have c1: "c1 = c" by (simp add: sync_def Let_def)
    from True have W: "?W = []" by (simp add: c1)
    from True have "sync up c1 =
        (Completed \<lparr>new_events = 0, updated_events = 0, total_events = 0,
              sum_players = 0, sum_standings = 0, sum_matches = 0,
              sum_decks = 0, sum_archetypes = 0\<rparr>, c1)"
      unfolding c1 by (simp add: sync_def Let_def)
    then show ?thesis
      by (simp add: W upstreamStandings_Nil upstreamMatches_Nil upstreamDecks_Nil
          upstreamDeckIds_Nil upstreamArchetypes_Nil)
  next
    case False
    with run1 have "stages up ?new ?inc c = (Inr s1, c1)"
      by (auto simp: sync_def Let_def split: prod.splits sum.splits if_splits)
    from stages_twice [OF this refl st mt dk ar sub] obtain c2 where
      new2: "getUpstreamEvents up (getLocalEventIds c1) = []" and
      run2: "stages up [] ?W c1 =
       (Inr \<lparr>new_events = 0, updated_events = length ?W, total_events = length ?W,
            sum_players = 0,
            sum_standings = length (upstreamStandings up ?W),
            sum_matches = length (upstreamMatches up ?W),
            sum_decks = length (upstreamDecks up ?W),
            sum_archetypes = length (upstreamArchetypes up (upstreamDeckIds up ?W))\<rparr>, c2)" and
      same: "data c2 = data c1" by blast
    show ?thesis
    proof (cases "?W = []")
      case True
      then have "sync up c1 =
        (Completed \<lparr>new_events = 0, updated_events = 0, total_events = 0,
              sum_players = 0, sum_standings = 0, sum_matches = 0,
              sum_decks = 0, sum_archetypes = 0\<rparr>, c1)"
        by (simp add: sync_def Let_def new2)
      then show ?thesis
        by (simp add: True upstreamStandings_Nil upstreamMatches_Nil upstreamDecks_Nil
            upstreamDeckIds_Nil upstreamArchetypes_Nil)
    next
      case False
      then have "sync up c1 =
       (Completed \<lparr>new_events = 0, updated_events = length ?W, total_events = length ?W,
            sum_players = 0,
            sum_standings = length (upstreamStandings up ?W),
            sum_matches = length (upstreamMatches up ?W),
            sum_decks = length (upstreamDecks up ?W),
            sum_archetypes = length (upstreamArchetypes up (upstreamDeckIds up ?W))\<rparr>, c2)"
        by (simp add: sync_def Let_def new2 run2)
      with same show ?thesis by simp
    qed
  qed
qed

text \<open>
  At the example, the first run adds event 203, which has no standings and no matches
  upstream and so stays incomplete: the second run reports it as updated, fetches no
  row for it, and leaves the tables as they were.
\<close>

theorem sync_twice_witness:
  "fst (sync upstream_D conn_D) =
     Completed \<lparr>new_events = 1, updated_events = 1, total_events = 2, sum_players = 0,
       sum_standings = 1, sum_matches = 1, sum_decks = 0, sum_archetypes = 0\<rparr> \<and>
   getIncompleteEventIds (data (snd (sync upstream_D conn_D))) = [203] \<and>
   data (snd (sync upstream_D (snd (sync upstream_D conn_D)))) =
     data (snd (sync upstream_D conn_D)) \<and>
   fst (sync upstream_D (snd (sync upstream_D conn_D))) =
     Completed \<lparr>new_events = 0, updated_events = 1, total_events = 1, sum_players = 0,
       sum_standings = 0, sum_matches = 0, sum_decks = 0, sum_archetypes = 0\<rparr>"
proof -
  let ?c1 = "snd (sync upstream_D conn_D)"
  have a: "fst (sync upstream_D conn_D) =
     Completed \<lparr>new_events = 1, updated_events = 1, total_events = 2, sum_players = 0,
       sum_standings = 1, sum_matches = 1, sum_decks = 0, sum_archetypes = 0\<rparr>"
    by (simp add: sync_D)
  then have run1: "sync upstream_D conn_D =
     (Completed \<lparr>new_events = 1, updated_events = 1, total_events = 2, sum_players = 0,
       sum_standings = 1, sum_matches = 1, sum_decks = 0, sum_archetypes = 0\<rparr>, ?c1)"
    by (simp add: prod_eq_iff)
  have b: "getIncompleteEventIds (data ?c1) = [203]"
    by (rule worklist_D [THEN conjunct1])
  have sub: "set (getIncompleteEventIds (data ?c1)) \<subseteq>
        set (map ev_id (getUpstreamEvents upstream_D (getLocalEventIds conn_D)) @
             getIncompleteEventIds (data conn_D))"
    unfolding b worklist_D [THEN conjunct2] by simp
  note r = sync_twice [OF run1 distinct_D [THEN conjunct1]
      distinct_D [THEN conjunct2, THEN conjunct1]
      distinct_D [THEN conjunct2, THEN conjunct2, THEN conjunct1]
      distinct_D [THEN conjunct2, THEN conjunct2, THEN conjunct2] sub]
  have c: "data (snd (sync upstream_D ?c1)) = data ?c1"
    by (rule r [THEN conjunct1])
  have d: "fst (sync upstream_D ?c1) =
     Completed \<lparr>new_events = 0, updated_events = 1, total_events = 1, sum_players = 0,
       sum_standings = 0, sum_matches = 0, sum_decks = 0, sum_archetypes = 0\<rparr>"
    using r [THEN conjunct2] unfolding b by (simp add: refetched_D)
  from a b c d show ?thesis by (intro conjI)
qed

text \<open>
  The claim as written fails in what the second run reports.  Upstream has event 300
  with one match and no standings.  The first run inserts the event, the player and the
  match.  The event has matches and no standings on the target, so it is incomplete
  for good: the second run changes no table, and reports one updated event and one
  match.
\<close>

theorem second_run_reports_rows_counterexample:
  "fst (sync upstream_K conn_K) =
     Completed \<lparr>new_events = 1, updated_events = 0, total_events = 1, sum_players = 1,
       sum_standings = 0, sum_matches = 1, sum_decks = 0, sum_archetypes = 0\<rparr> \<and>
   fst (sync upstream_K (snd (sync upstream_K conn_K))) =
     Completed \<lparr>new_events = 0, updated_events = 1, total_events = 1, sum_players = 0,
       sum_standings = 0, sum_matches = 1, sum_decks = 0, sum_archetypes = 0\<rparr> \<and>
   data (snd (sync upstream_K (snd (sync upstream_K conn_K)))) =
     data (snd (sync upstream_K conn_K))"
  using sync_K by (intro conjI) simp_all

end
